theory Spec2Isabelle
  imports Main
begin

section \<open>Data model (types of the matchmaker)\<close>

text \<open>
  JavaScript numbers that hold counters, ports, priorities and millisecond time stamps
  are modelled as \<open>int\<close>. An optional field \<open>f?: T\<close> is a \<open>T option\<close>, with \<open>None\<close>
  for \<open>undefined\<close>. A \<open>Record<string, any>\<close> is an association list.
  The field \<open>id\<close> of a server and of a session is written \<open>server_id\<close> and
  \<open>session_id\<close>, the fields of a message carry the prefix \<open>msg_\<close>.
\<close>

type_synonym metadata = "(string \<times> string) list"

record CirrusServer =
  server_id :: string
  address :: "string option"
  port :: "int option"
  https :: bool
  numConnectedClients :: int
  lastPingReceived :: int
  ready :: bool
  lastRedirect :: "int option"
  server_metadata :: metadata

datatype SessionStatus = Queued | Connected | Disconnected | Expired

record ClientSession =
  session_id :: string
  clientId :: "string option"
  serverId :: "string option"
  createdAt :: int
  lastActivity :: int
  status :: SessionStatus
  priority :: int
  session_metadata :: "metadata option"

record QueuePosition =
  position :: int
  estimatedWaitTime :: int
  totalInQueue :: int

datatype MessageType =
  Connect | Disconnect | StreamerConnected | StreamerDisconnected
  | ClientConnected | ClientDisconnected | Ping | HealthCheck

record MatchmakerMessage =
  msg_type :: MessageType
  msg_address :: "string option"
  msg_port :: "int option"
  msg_https :: "bool option"
  msg_ready :: "bool option"
  msg_playerConnected :: "bool option"
  msg_serverId :: "string option"
  msg_clientId :: "string option"
  msg_metadata :: "metadata option"

text \<open>The events handed to \<open>EventEmitter.emit\<close>, with their arguments.\<close>

datatype event =
  ServerRegistered CirrusServer
  | ServerUpdated CirrusServer
  | ServerUnregistered CirrusServer
  | ClientQueued ClientSession
  | ClientAssigned ClientSession CirrusServer
  | SessionRemoved ClientSession

text \<open>
  The private state of \<open>MatchmakerService\<close>. A JavaScript \<open>Map\<close> iterates in insertion
  order, so both maps are association lists in that order. \<open>emitted\<close> is the log of the
  calls of \<open>emit\<close>, oldest first.
\<close>

record engine =
  cirrusServers :: "(string \<times> CirrusServer) list"
  clientSessions :: "(string \<times> ClientSession) list"
  queueOrder :: "string list"
  emitted :: "event list"

definition emptyEngine :: engine where
  "emptyEngine = \<lparr>cirrusServers = [], clientSessions = [], queueOrder = [], emitted = []\<rparr>"

section \<open>The JavaScript containers\<close>

text \<open>\<open>Map.get\<close>, \<open>Map.set\<close> (an existing key keeps its place, a new one goes last) and
  \<open>Map.delete\<close>.\<close>

fun map_get :: "'k \<Rightarrow> ('k \<times> 'v) list \<Rightarrow> 'v option" where
  "map_get k [] = None"
| "map_get k ((k', v) # m) = (if k' = k then Some v else map_get k m)"

fun map_set :: "'k \<Rightarrow> 'v \<Rightarrow> ('k \<times> 'v) list \<Rightarrow> ('k \<times> 'v) list" where
  "map_set k v [] = [(k, v)]"
| "map_set k v ((k', v') # m) = (if k' = k then (k, v) # m else (k', v') # map_set k v m)"

fun map_delete :: "'k \<Rightarrow> ('k \<times> 'v) list \<Rightarrow> ('k \<times> 'v) list" where
  "map_delete k [] = []"
| "map_delete k ((k', v) # m) = (if k' = k then map_delete k m else (k', v) # map_delete k m)"

text \<open>\<open>Array.prototype.findIndex\<close> and \<open>indexOf\<close>: the first index, or \<open>-1\<close>.\<close>

fun findIndex :: "('a \<Rightarrow> bool) \<Rightarrow> 'a list \<Rightarrow> int" where
  "findIndex P [] = - 1"
| "findIndex P (x # xs) =
     (if P x then 0 else (let i = findIndex P xs in if i = - 1 then - 1 else i + 1))"

definition indexOf :: "'a \<Rightarrow> 'a list \<Rightarrow> int" where
  "indexOf x xs = findIndex (\<lambda>y. y = x) xs"

text \<open>\<open>xs.splice(i, 0, x)\<close> and \<open>xs.splice(i, 1)\<close> for an index \<open>0 \<le> i\<close>.\<close>

definition splice_insert :: "int \<Rightarrow> 'a \<Rightarrow> 'a list \<Rightarrow> 'a list" where
  "splice_insert i x xs = take (nat i) xs @ x # drop (nat i) xs"

definition splice_remove :: "int \<Rightarrow> 'a list \<Rightarrow> 'a list" where
  "splice_remove i xs = take (nat i) xs @ drop (Suc (nat i)) xs"

section \<open>common/utils\<close>

text \<open>
  \<open>now()\<close> is \<open>Date.now()\<close>: every operation below takes the clock reading as its
  argument \<open>t\<close> (one reading for one synchronous call). \<open>generateId()\<close> is a random
  UUID: the operations that call it take the generated identifier as an argument.
\<close>

definition isExpired :: "int \<Rightarrow> int \<Rightarrow> int \<Rightarrow> bool" where
  "isExpired t timestamp timeoutMs = (t - timestamp > timeoutMs)"

section \<open>MatchmakerService\<close>

text \<open>
  In \<open>server.lastRedirect && (now() - server.lastRedirect) < 10000\<close> the number
  \<open>lastRedirect\<close> is used as a condition: \<open>undefined\<close> and \<open>0\<close> are falsy.
\<close>

definition isServerAvailable :: "int \<Rightarrow> CirrusServer \<Rightarrow> bool" where
  "isServerAvailable t server =
     (if \<not> ready server \<or> numConnectedClients server > 0 then False
      else if (case lastRedirect server of
                 None \<Rightarrow> False
               | Some r \<Rightarrow> r \<noteq> 0 \<and> t - r < 10000) then False
      else True)"

definition findServerByAddress ::
  "string option \<Rightarrow> int option \<Rightarrow> (string \<times> CirrusServer) list \<Rightarrow> CirrusServer option" where
  "findServerByAddress a p servers =
     List.find (\<lambda>server. address server = a \<and> port server = p) (map snd servers)"

definition registerServer ::
  "MatchmakerMessage \<Rightarrow> string \<Rightarrow> int \<Rightarrow> engine \<Rightarrow> string \<times> engine" where
  "registerServer message serverId' t s =
     (let server = \<lparr>server_id = serverId',
                     address = msg_address message,
                     port = msg_port message,
                     https = (case msg_https message of Some b \<Rightarrow> b | None \<Rightarrow> False),
                     numConnectedClients = (if msg_playerConnected message = Some True then 1 else 0),
                     lastPingReceived = t,
                     ready = (msg_ready message = Some True),
                     lastRedirect = None,
                     server_metadata = (case msg_metadata message of Some m \<Rightarrow> m | None \<Rightarrow> [])\<rparr>;
          servers1 = (case findServerByAddress (address server) (port server) (cirrusServers s) of
                        Some existingServer \<Rightarrow> map_delete (server_id existingServer) (cirrusServers s)
                      | None \<Rightarrow> cirrusServers s)
      in (serverId',
          s\<lparr>cirrusServers := map_set serverId' server servers1,
            emitted := emitted s @ [ServerRegistered server]\<rparr>))"

definition updateServerStatus :: "string \<Rightarrow> MatchmakerMessage \<Rightarrow> int \<Rightarrow> engine \<Rightarrow> engine" where
  "updateServerStatus serverId' message t s =
     (case map_get serverId' (cirrusServers s) of
        None \<Rightarrow> s
      | Some server \<Rightarrow>
          (let server' =
             (case msg_type message of
                StreamerConnected \<Rightarrow> server\<lparr>ready := True\<rparr>
              | StreamerDisconnected \<Rightarrow> server\<lparr>ready := False\<rparr>
              | ClientConnected \<Rightarrow> server\<lparr>numConnectedClients := numConnectedClients server + 1\<rparr>
              | ClientDisconnected \<Rightarrow>
                  (let n = max 0 (numConnectedClients server - 1);
                       server1 = server\<lparr>numConnectedClients := n\<rparr>
                   in if n = 0 then server1\<lparr>lastRedirect := Some 0\<rparr> else server1)
              | Ping \<Rightarrow> server\<lparr>lastPingReceived := t\<rparr>
              | _ \<Rightarrow> server)
           in s\<lparr>cirrusServers := map_set serverId' server' (cirrusServers s),
                emitted := emitted s @ [ServerUpdated server']\<rparr>))"

definition unregisterServer :: "string \<Rightarrow> engine \<Rightarrow> engine" where
  "unregisterServer serverId' s =
     (case map_get serverId' (cirrusServers s) of
        Some server \<Rightarrow>
          s\<lparr>cirrusServers := map_delete serverId' (cirrusServers s),
            emitted := emitted s @ [ServerUnregistered server]\<rparr>
      | None \<Rightarrow> s)"

text \<open>
  The loop of \<open>getAvailableServer\<close> over \<open>cirrusServers.values()\<close>: the first available
  server gets \<open>lastRedirect = now()\<close> in place and is returned.
\<close>

fun firstAvailable ::
  "int \<Rightarrow> (string \<times> CirrusServer) list \<Rightarrow> CirrusServer option \<times> (string \<times> CirrusServer) list" where
  "firstAvailable t [] = (None, [])"
| "firstAvailable t ((k, server) # rest) =
     (if isServerAvailable t server
      then (Some (server\<lparr>lastRedirect := Some t\<rparr>), (k, server\<lparr>lastRedirect := Some t\<rparr>) # rest)
      else (case firstAvailable t rest of (r, rest') \<Rightarrow> (r, (k, server) # rest')))"

definition getAvailableServer :: "int \<Rightarrow> engine \<Rightarrow> CirrusServer option \<times> engine" where
  "getAvailableServer t s =
     (case firstAvailable t (cirrusServers s) of
        (r, servers') \<Rightarrow> (r, s\<lparr>cirrusServers := servers'\<rparr>))"

definition getQueuePosition :: "string \<Rightarrow> engine \<Rightarrow> QueuePosition option" where
  "getQueuePosition sessionId s =
     (let position' = indexOf sessionId (queueOrder s) + 1
      in if position' = 0 then None
         else Some \<lparr>position = position',
                    estimatedWaitTime = position' * 300000,
                    totalInQueue = int (length (queueOrder s))\<rparr>)"

definition addToQueue ::
  "string option \<Rightarrow> int \<Rightarrow> string \<Rightarrow> int \<Rightarrow> engine \<Rightarrow> ClientSession \<times> engine" where
  "addToQueue clientId' priority' sessionId t s =
     (let session = \<lparr>session_id = sessionId,
                      clientId = clientId',
                      serverId = None,
                      createdAt = t,
                      lastActivity = t,
                      status = Queued,
                      priority = priority',
                      session_metadata = None\<rparr>;
          sessions' = map_set sessionId session (clientSessions s);
          insertIndex = findIndex
            (\<lambda>otherId. case map_get otherId sessions' of
                          None \<Rightarrow> False
                        | Some otherSession \<Rightarrow> priority otherSession < priority')
            (queueOrder s);
          queue' = (if insertIndex = - 1 then queueOrder s @ [sessionId]
                    else splice_insert insertIndex sessionId (queueOrder s))
      in (session,
          s\<lparr>clientSessions := sessions',
            queueOrder := queue',
            emitted := emitted s @ [ClientQueued session]\<rparr>))"

definition processNextInQueue :: "int \<Rightarrow> engine \<Rightarrow> bool \<times> engine" where
  "processNextInQueue t s =
     (if length (queueOrder s) = 0 then (False, s)
      else (case getAvailableServer t s of
              (None, s1) \<Rightarrow> (False, s1)
            | (Some server, s1) \<Rightarrow>
                (case queueOrder s1 of
                   [] \<Rightarrow> (False, s1)
                 | sessionId # queue' \<Rightarrow>
                     (case map_get sessionId (clientSessions s1) of
                        Some session \<Rightarrow>
                          (let session' = session\<lparr>serverId := Some (server_id server),
                                                   status := Connected,
                                                   lastActivity := t\<rparr>
                           in (True,
                               s1\<lparr>clientSessions := map_set sessionId session' (clientSessions s1),
                                  queueOrder := queue',
                                  emitted := emitted s1 @ [ClientAssigned session' server]\<rparr>))
                      | None \<Rightarrow> (False, s1\<lparr>queueOrder := queue'\<rparr>)))))"

definition removeSession :: "string \<Rightarrow> engine \<Rightarrow> engine" where
  "removeSession sessionId s =
     (case map_get sessionId (clientSessions s) of
        Some session \<Rightarrow>
          (let queueIndex = indexOf sessionId (queueOrder s)
           in s\<lparr>clientSessions := map_delete sessionId (clientSessions s),
                queueOrder := (if queueIndex \<noteq> - 1 then splice_remove queueIndex (queueOrder s)
                               else queueOrder s),
                emitted := emitted s @ [SessionRemoved session]\<rparr>)
      | None \<Rightarrow> s)"

text \<open>
  The two sweeps iterate over \<open>entries()\<close> of a map while \<open>removeSession\<close> and
  \<open>unregisterServer\<close> delete the entry being visited, and no other. The timeout of a
  session is \<open>config.SessionTimeoutMs\<close>, an argument here.
\<close>

definition cleanupExpiredSessions :: "int \<Rightarrow> int \<Rightarrow> engine \<Rightarrow> engine" where
  "cleanupExpiredSessions t sessionTimeoutMs s =
     foldl (\<lambda>s' (sessionId, session).
              if isExpired t (lastActivity session) sessionTimeoutMs
              then removeSession sessionId s' else s')
           s (clientSessions s)"

definition cleanupStaleServers :: "int \<Rightarrow> engine \<Rightarrow> engine" where
  "cleanupStaleServers t s =
     foldl (\<lambda>s' (serverId', server).
              if isExpired t (lastPingReceived server) 120000
              then unregisterServer serverId' s' else s')
           s (cirrusServers s)"

section \<open>The caller's loop (index.ts)\<close>

text \<open>
  \<open>EnhancedMatchmaker.processQueue\<close> repeats \<open>processNextInQueue\<close> while it returns
  \<open>true\<close>:
  \<^verbatim>\<open>let processed = true; while (processed) { processed = processNextInQueue(); }\<close>
  A call that returns \<open>true\<close> has shortened the queue, so the loop ends. The loop is
  synchronous: all its iterations get the clock reading \<open>t\<close>.
\<close>

function processQueue :: "int \<Rightarrow> engine \<Rightarrow> engine" where
  "processQueue t s =
     (case processNextInQueue t s of
        (processed, s') \<Rightarrow> if processed then processQueue t s' else s')"
  by pat_completeness auto
termination
  by (relation "measure (\<lambda>(t, s). length (queueOrder s))")
     (auto simp: processNextInQueue_def getAvailableServer_def Let_def
           split: if_splits prod.splits option.splits list.splits)

declare processQueue.simps [simp del]

section \<open>Executions\<close>

text \<open>
  A call of the service with everything it reads from outside: its arguments, the
  identifier that \<open>generateId()\<close> returns and the clock reading. The two sweeps are
  what the cleanup interval runs.
\<close>

datatype call =
  RegisterServer MatchmakerMessage string int
  | UpdateServerStatus string MatchmakerMessage int
  | UnregisterServer string
  | GetAvailableServer int
  | AddToQueue "string option" int string int
  | ProcessNextInQueue int
  | RemoveSession string
  | CleanupExpiredSessions int int
  | CleanupStaleServers int

fun exec :: "call \<Rightarrow> engine \<Rightarrow> engine" where
  "exec (RegisterServer message serverId' t) s = snd (registerServer message serverId' t s)"
| "exec (UpdateServerStatus serverId' message t) s = updateServerStatus serverId' message t s"
| "exec (UnregisterServer serverId') s = unregisterServer serverId' s"
| "exec (GetAvailableServer t) s = snd (getAvailableServer t s)"
| "exec (AddToQueue clientId' priority' sessionId t) s =
     snd (addToQueue clientId' priority' sessionId t s)"
| "exec (ProcessNextInQueue t) s = snd (processNextInQueue t s)"
| "exec (RemoveSession sessionId) s = removeSession sessionId s"
| "exec (CleanupExpiredSessions t sessionTimeoutMs) s = cleanupExpiredSessions t sessionTimeoutMs s"
| "exec (CleanupStaleServers t) s = cleanupStaleServers t s"

text \<open>\<open>generateId()\<close> returns an identifier that is not in use.\<close>

fun fresh :: "engine \<Rightarrow> call \<Rightarrow> bool" where
  "fresh s (RegisterServer message serverId' t) = (serverId' \<notin> fst ` set (cirrusServers s))"
| "fresh s (AddToQueue clientId' priority' sessionId t) = (sessionId \<notin> fst ` set (clientSessions s))"
| "fresh s _ = True"

fun run :: "call list \<Rightarrow> engine \<Rightarrow> engine" where
  "run [] s = s"
| "run (c # cs) s = run cs (exec c s)"

fun fresh_run :: "engine \<Rightarrow> call list \<Rightarrow> bool" where
  "fresh_run s [] = True"
| "fresh_run s (c # cs) = (fresh s c \<and> fresh_run (exec c s) cs)"

inductive reachable :: "engine \<Rightarrow> bool" where
  init: "reachable emptyEngine"
| step: "reachable s \<Longrightarrow> fresh s c \<Longrightarrow> reachable (exec c s)"



text \<open>\<open>enqueues k c\<close>: the call \<open>c\<close> is an \<open>addToQueue\<close> whose generated identifier is \<open>k\<close>.\<close>

fun enqueues :: "string \<Rightarrow> call \<Rightarrow> bool" where
  "enqueues k (AddToQueue clientId' priority' sessionId t) = (sessionId = k)"
| "enqueues k _ = False"

text \<open>\<open>precedes a b xs\<close>: \<open>b\<close> stands behind the first \<open>a\<close> in \<open>xs\<close>.\<close>

fun precedes :: "'a \<Rightarrow> 'a \<Rightarrow> 'a list \<Rightarrow> bool" where
  "precedes a b [] = False"
| "precedes a b (x # xs) = (if x = a then b \<in> set xs else precedes a b xs)"

section \<open>Invariants of the reachable states\<close>

text \<open>
  The registry: keys are distinct, every server is stored under its own \<open>id\<close>, its
  client count is not negative, and no two servers share \<open>(address, port)\<close>.
\<close>

definition endpoint :: "string \<times> CirrusServer \<Rightarrow> string option \<times> int option" where
  "endpoint p = (address (snd p), port (snd p))"

definition servers_ok :: "(string \<times> CirrusServer) list \<Rightarrow> bool" where
  "servers_ok m \<longleftrightarrow>
     distinct (map fst m)
     \<and> (\<forall>p \<in> set m. server_id (snd p) = fst p \<and> 0 \<le> numConnectedClients (snd p))
     \<and> distinct (map endpoint m)"

text \<open>\<open>prio_ge m a b\<close>: both sessions are in the map and \<open>a\<close> has at least the priority of \<open>b\<close>.\<close>

definition prio_ge :: "(string \<times> ClientSession) list \<Rightarrow> string \<Rightarrow> string \<Rightarrow> bool" where
  "prio_ge m a b =
     (case map_get a m of
        None \<Rightarrow> False
      | Some x \<Rightarrow> (case map_get b m of None \<Rightarrow> False | Some y \<Rightarrow> priority y \<le> priority x))"

definition isQueued :: "(string \<times> ClientSession) list \<Rightarrow> string \<Rightarrow> bool" where
  "isQueued m sessionId =
     (case map_get sessionId m of None \<Rightarrow> False | Some x \<Rightarrow> status x = Queued)"

text \<open>
  The queue: session keys are distinct, the queue has no duplicates, every queued
  identifier is a session of status \<open>queued\<close>, and the queue is ordered by priority,
  highest first.
\<close>

definition queue_ok :: "(string \<times> ClientSession) list \<Rightarrow> string list \<Rightarrow> bool" where
  "queue_ok m q \<longleftrightarrow>
     distinct (map fst m) \<and> distinct q
     \<and> list_all (isQueued m) q
     \<and> sorted_wrt (prio_ge m) q"

text \<open>The session that \<open>addToQueue\<close> creates, and the test of its \<open>findIndex\<close>.\<close>

definition newSession :: "string option \<Rightarrow> int \<Rightarrow> string \<Rightarrow> int \<Rightarrow> ClientSession" where
  "newSession cid p sid t = \<lparr>session_id = sid, clientId = cid, serverId = None, createdAt = t,
     lastActivity = t, status = Queued, priority = p, session_metadata = None\<rparr>"

definition lowerThan :: "(string \<times> ClientSession) list \<Rightarrow> int \<Rightarrow> string \<Rightarrow> bool" where
  "lowerThan m p other = (case map_get other m of None \<Rightarrow> False | Some x \<Rightarrow> priority x < p)"



text \<open>
  \<open>ahead a b s\<close>: while \<open>a\<close> is queued, \<open>b\<close> is queued behind it or is no session any more.
\<close>

definition ahead :: "string \<Rightarrow> string \<Rightarrow> engine \<Rightarrow> bool" where
  "ahead a b s \<longleftrightarrow>
     (a \<in> set (queueOrder s) \<longrightarrow>
        (if b \<in> set (queueOrder s) then precedes a b (queueOrder s)
         else map_get b (clientSessions s) = None))"

text \<open>Both invariants together.\<close>

definition engine_ok :: "engine \<Rightarrow> bool" where
  "engine_ok s \<longleftrightarrow> servers_ok (cirrusServers s) \<and> queue_ok (clientSessions s) (queueOrder s)"

section \<open>Messages and states used as examples\<close>

text \<open>
  A \<open>connect\<close> message as the node sends it,
  \<open>{type: 'connect', address, port, https: false, ready, playerConnected}\<close>, and a
  message that carries its type only, such as \<open>{type: 'ping'}\<close>.
\<close>

definition connectMsg :: "string \<Rightarrow> int \<Rightarrow> bool \<Rightarrow> bool \<Rightarrow> MatchmakerMessage" where
  "connectMsg a p r pc =
     \<lparr>msg_type = Connect, msg_address = Some a, msg_port = Some p, msg_https = Some False,
      msg_ready = Some r, msg_playerConnected = Some pc, msg_serverId = None,
      msg_clientId = None, msg_metadata = None\<rparr>"

definition statusMsg :: "MessageType \<Rightarrow> MatchmakerMessage" where
  "statusMsg ty =
     \<lparr>msg_type = ty, msg_address = None, msg_port = None, msg_https = None,
      msg_ready = None, msg_playerConnected = None, msg_serverId = None,
      msg_clientId = None, msg_metadata = None\<rparr>"

text \<open>One ready node \<open>n1\<close> at \<open>10.0.0.1:8080\<close>, registered at time \<open>t\<close>.\<close>

definition oneNode :: "int \<Rightarrow> engine" where
  "oneNode t = exec (RegisterServer (connectMsg ''10.0.0.1'' 8080 True False) ''n1'' t) emptyEngine"

text \<open>One queued session \<open>s1\<close> of client \<open>c1\<close> and priority 0, enqueued at time 0.\<close>

definition oneQueued :: engine where
  "oneQueued = exec (AddToQueue (Some ''c1'') 0 ''s1'' 0) emptyEngine"

text \<open>Two ready nodes and two queued sessions of priority 0.\<close>

definition twoAndTwo :: engine where
  "twoAndTwo = run [RegisterServer (connectMsg ''10.0.0.1'' 8080 True False) ''n1'' 0,
                    RegisterServer (connectMsg ''10.0.0.2'' 8080 True False) ''n2'' 0,
                    AddToQueue (Some ''c1'') 0 ''s1'' 1,
                    AddToQueue (Some ''c2'') 0 ''s2'' 2] emptyEngine"

section \<open>Lemmas about the containers and the operations\<close>

subsection \<open>Maps\<close>

lemma map_get_map_of: "map_get k m = map_of m k"
  by (induction m) auto

lemma map_delete_filter: "map_delete k m = filter (\<lambda>p. fst p \<noteq> k) m"
  by (induction m) auto

lemma map_get_set: "map_get k (map_set k' v m) = (if k = k' then Some v else map_get k m)"
  by (induction m) auto

lemma map_get_delete: "map_get k (map_delete k' m) = (if k = k' then None else map_get k m)"
  by (induction m) auto

lemma map_get_None: "map_get k m = None \<longleftrightarrow> k \<notin> fst ` set m"
  by (simp add: map_get_map_of map_of_eq_None_iff)

lemma map_get_Some_mem: "map_get k m = Some v \<Longrightarrow> (k, v) \<in> set m"
  by (induction m) (auto split: if_splits)

lemma map_get_distinct: "distinct (map fst m) \<Longrightarrow> (k, v) \<in> set m \<Longrightarrow> map_get k m = Some v"
  by (induction m) (auto simp: rev_image_eqI)

lemma map_set_fresh: "k \<notin> fst ` set m \<Longrightarrow> map_set k v m = m @ [(k, v)]"
  by (induction m) auto

lemma map_fst_map_set:
  "map fst (map_set k v m) = (if k \<in> set (map fst m) then map fst m else map fst m @ [k])"
proof (induction m)
  case Nil
  show ?case by simp
next
  case (Cons p m)
  obtain k' v' where p: "p = (k', v')" by (cases p)
  show ?case
  proof (cases "k' = k")
    case True
    with p show ?thesis by simp
  next
    case False
    with p Cons show ?thesis by (cases "k \<in> set (map fst m)") simp_all
  qed
qed

lemma keys_map_set: "fst ` set (map_set k v m) = insert k (fst ` set m)"
proof -
  have "set (map fst (map_set k v m)) = insert k (set (map fst m))"
    unfolding map_fst_map_set by auto
  then show ?thesis by simp
qed

lemma map_fst_map_set_mem: "k \<in> fst ` set m \<Longrightarrow> map fst (map_set k v m) = map fst m"
  by (induction m) force+

lemma distinct_map_set: "distinct (map fst m) \<Longrightarrow> distinct (map fst (map_set k v m))"
  by (induction m) (auto simp: keys_map_set)

lemma distinct_map_delete: "distinct (map fst m) \<Longrightarrow> distinct (map fst (map_delete k m))"
  by (simp add: map_delete_filter distinct_map_filter)

lemma set_map_set_subset: "set (map_set k v m) \<subseteq> insert (k, v) (set m)"
  by (induction m) (auto split: if_splits)

lemma map_delete_absent: "map_get k m = None \<Longrightarrow> map_delete k m = m"
  by (induction m) (auto split: if_splits)

subsection \<open>Arrays\<close>

lemma findIndex_ge: "- 1 \<le> findIndex P xs"
  by (induction xs) (auto simp: Let_def)

lemma findIndex_none: "findIndex P xs = - 1 \<longleftrightarrow> (\<forall>x \<in> set xs. \<not> P x)"
proof (induction xs)
  case Nil
  show ?case by simp
next
  case (Cons x xs)
  have "- 1 \<le> findIndex P xs" by (rule findIndex_ge)
  with Cons show ?case by (auto simp: Let_def)
qed

lemma findIndex_takeWhile:
  "findIndex P xs \<noteq> - 1 \<Longrightarrow> nat (findIndex P xs) = length (takeWhile (\<lambda>x. \<not> P x) xs)"
proof (induction xs)
  case Nil
  then show ?case by simp
next
  case (Cons x xs)
  have ge: "- 1 \<le> findIndex P xs" by (rule findIndex_ge)
  show ?case
  proof (cases "P x")
    case True
    then show ?thesis by simp
  next
    case False
    with Cons.prems have ne: "findIndex P xs \<noteq> - 1" by (auto simp: Let_def split: if_splits)
    with ge have "0 \<le> findIndex P xs" by arith
    with False ne Cons.IH show ?thesis by (simp add: Let_def nat_add_distrib)
  qed
qed

lemma splice_insert_findIndex:
  "findIndex P xs \<noteq> - 1 \<Longrightarrow>
   splice_insert (findIndex P xs) x xs = takeWhile (\<lambda>y. \<not> P y) xs @ x # dropWhile (\<lambda>y. \<not> P y) xs"
  by (simp add: splice_insert_def findIndex_takeWhile takeWhile_eq_take[symmetric]
      dropWhile_eq_drop[symmetric])

lemma insert_by_findIndex:
  "(if findIndex P xs = - 1 then xs @ [x] else splice_insert (findIndex P xs) x xs)
   = takeWhile (\<lambda>y. \<not> P y) xs @ x # dropWhile (\<lambda>y. \<not> P y) xs"
proof (cases "findIndex P xs = - 1")
  case True
  then have "\<forall>y \<in> set xs. \<not> P y" by (simp add: findIndex_none)
  then have tw: "takeWhile (\<lambda>y. \<not> P y) xs = xs" and dw: "dropWhile (\<lambda>y. \<not> P y) xs = []"
    by (induction xs) auto
  show ?thesis unfolding tw dw using True by simp
next
  case False
  then show ?thesis by (simp add: splice_insert_findIndex)
qed

lemma indexOf_none: "indexOf x xs = - 1 \<longleftrightarrow> x \<notin> set xs"
  by (auto simp: indexOf_def findIndex_none)

lemma splice_remove_indexOf:
  "(if indexOf x xs \<noteq> - 1 then splice_remove (indexOf x xs) xs else xs) = remove1 x xs"
proof (cases "x \<in> set xs")
  case False
  then show ?thesis by (simp add: indexOf_none remove1_idem)
next
  case True
  then have ne: "findIndex (\<lambda>y. y = x) xs \<noteq> - 1" by (simp add: findIndex_none)
  have "remove1 x xs = takeWhile (\<lambda>y. y \<noteq> x) xs @ tl (dropWhile (\<lambda>y. y \<noteq> x) xs)"
    by (induction xs) auto
  moreover have "splice_remove (indexOf x xs) xs
      = takeWhile (\<lambda>y. y \<noteq> x) xs @ tl (dropWhile (\<lambda>y. y \<noteq> x) xs)"
  proof -
    let ?n = "length (takeWhile (\<lambda>y. y \<noteq> x) xs)"
    have n: "nat (indexOf x xs) = ?n"
      using findIndex_takeWhile[OF ne] by (simp add: indexOf_def)
    have "drop (Suc ?n) xs = tl (drop ?n xs)" by (simp add: drop_Suc drop_tl)
    also have "drop ?n xs = dropWhile (\<lambda>y. y \<noteq> x) xs" by (rule dropWhile_eq_drop[symmetric])
    finally have d: "drop (Suc ?n) xs = tl (dropWhile (\<lambda>y. y \<noteq> x) xs)" .
    have t: "take ?n xs = takeWhile (\<lambda>y. y \<noteq> x) xs" by (rule takeWhile_eq_take[symmetric])
    show ?thesis unfolding splice_remove_def n d t ..
  qed
  ultimately show ?thesis using True by (simp add: indexOf_none)
qed

subsection \<open>The loop of getAvailableServer\<close>

lemma firstAvailable_None:
  "fst (firstAvailable t m) = None \<Longrightarrow> snd (firstAvailable t m) = m"
  by (induction m) (auto split: prod.splits if_splits)

lemma firstAvailable_None_iff:
  "fst (firstAvailable t m) = None \<longleftrightarrow> (\<forall>p \<in> set m. \<not> isServerAvailable t (snd p))"
  by (induction m) (auto split: prod.splits if_splits)

lemma firstAvailable_Some:
  "firstAvailable t m = (Some N, m') \<Longrightarrow>
   \<exists>pre k N0 post. m = pre @ (k, N0) # post \<and> (\<forall>p \<in> set pre. \<not> isServerAvailable t (snd p))
     \<and> isServerAvailable t N0 \<and> N = N0\<lparr>lastRedirect := Some t\<rparr> \<and> m' = pre @ (k, N) # post"
proof (induction m arbitrary: m')
  case Nil
  then show ?case by simp
next
  case (Cons p m)
  obtain k srv where p: "p = (k, srv)" by (cases p)
  show ?case
  proof (cases "isServerAvailable t srv")
    case True
    with Cons.prems p have "N = srv\<lparr>lastRedirect := Some t\<rparr>" "m' = (k, N) # m" by auto
    with True p show ?thesis by (intro exI[of _ "[]"] exI[of _ k] exI[of _ srv] exI[of _ m]) simp
  next
    case False
    with Cons.prems p obtain m1 where m1: "firstAvailable t m = (Some N, m1)" "m' = (k, srv) # m1"
      by (auto split: prod.splits)
    from Cons.IH[OF m1(1)] obtain pre k' N0 post where
      "m = pre @ (k', N0) # post" "\<forall>p \<in> set pre. \<not> isServerAvailable t (snd p)"
      "isServerAvailable t N0" "N = N0\<lparr>lastRedirect := Some t\<rparr>" "m1 = pre @ (k', N) # post"
      by blast
    with False p m1(2) show ?thesis
      by (intro exI[of _ "(k, srv) # pre"] exI[of _ k'] exI[of _ N0] exI[of _ post]) simp
  qed
qed

lemma firstAvailable_keys: "map fst (snd (firstAvailable t m)) = map fst m"
  by (induction m) (auto split: prod.splits)

subsection \<open>Registry invariant\<close>

lemma map_set_same_image:
  "map_get k m = Some v \<Longrightarrow> f (k, v') = f (k, v) \<Longrightarrow> map f (map_set k v' m) = map f m"
  by (induction m) (auto split: if_splits)

lemma servers_ok_update:
  assumes ok: "servers_ok m" and get: "map_get k m = Some srv"
    and id: "server_id srv' = server_id srv" and ep: "address srv' = address srv" "port srv' = port srv"
    and n: "0 \<le> numConnectedClients srv'"
  shows "servers_ok (map_set k srv' m)"
proof -
  from get have mem: "(k, srv) \<in> set m" by (rule map_get_Some_mem)
  with ok have idk: "server_id srv = k" by (auto simp: servers_ok_def)
  have "map endpoint (map_set k srv' m) = map endpoint m"
    using get ep by (intro map_set_same_image) (simp_all add: endpoint_def)
  moreover have "distinct (map fst (map_set k srv' m))"
    using ok by (simp add: servers_ok_def distinct_map_set)
  moreover have "\<forall>p \<in> set (map_set k srv' m). server_id (snd p) = fst p \<and> 0 \<le> numConnectedClients (snd p)"
    using set_map_set_subset[of k srv' m] ok id idk n by (auto simp: servers_ok_def)
  ultimately show ?thesis using ok by (simp add: servers_ok_def)
qed

lemma servers_ok_filter: "servers_ok m \<Longrightarrow> servers_ok (filter P m)"
  by (auto simp: servers_ok_def distinct_map_filter)

lemma servers_ok_delete: "servers_ok m \<Longrightarrow> servers_ok (map_delete k m)"
  by (simp add: map_delete_filter servers_ok_filter)

lemma servers_ok_firstAvailable:
  assumes ok: "servers_ok m"
  shows "servers_ok (snd (firstAvailable t m))"
proof (cases "fst (firstAvailable t m)")
  case None
  then show ?thesis using ok by (simp add: firstAvailable_None)
next
  case (Some N)
  then have "firstAvailable t m = (Some N, snd (firstAvailable t m))" by (simp add: prod_eq_iff)
  from firstAvailable_Some[OF this] obtain pre k N0 post where
    m: "m = pre @ (k, N0) # post" and N: "N = N0\<lparr>lastRedirect := Some t\<rparr>"
    and m': "snd (firstAvailable t m) = pre @ (k, N) # post" by blast
  show ?thesis using ok unfolding m' unfolding m N by (simp add: servers_ok_def endpoint_def)
qed

lemma servers_ok_register:
  assumes ok: "servers_ok (cirrusServers s)" and fr: "sid \<notin> fst ` set (cirrusServers s)"
  shows "servers_ok (cirrusServers (snd (registerServer msg sid t s)))"
proof -
  let ?m = "cirrusServers s"
  let ?P = "\<lambda>server. address server = msg_address msg \<and> port server = msg_port msg"
  define m1 where "m1 = (case findServerByAddress (msg_address msg) (msg_port msg) ?m of
                        Some e \<Rightarrow> map_delete (server_id e) ?m | None \<Rightarrow> ?m)"
  have ok1: "servers_ok m1"
    using ok by (simp add: m1_def servers_ok_delete split: option.splits)
  have sub: "set m1 \<subseteq> set ?m"
    by (auto simp: m1_def map_delete_filter split: option.splits)
  have noep: "(msg_address msg, msg_port msg) \<notin> endpoint ` set m1"
  proof (cases "findServerByAddress (msg_address msg) (msg_port msg) ?m")
    case None
    then have m1: "m1 = ?m" by (simp add: m1_def)
    from None have "\<forall>x \<in> set ?m. \<not> ?P (snd x)"
      by (simp add: findServerByAddress_def find_None_iff)
    then show ?thesis unfolding m1 by (auto simp: endpoint_def)
  next
    case (Some e)
    then have e: "e \<in> snd ` set ?m" "?P e"
      by (auto simp: findServerByAddress_def find_Some_iff)
    then obtain k where ke: "(k, e) \<in> set ?m" by auto
    with ok have k: "server_id e = k" by (auto simp: servers_ok_def)
    have inj: "inj_on endpoint (set ?m)"
      using ok by (simp add: servers_ok_def distinct_map)
    show ?thesis
    proof
      assume "(msg_address msg, msg_port msg) \<in> endpoint ` set m1"
      then obtain p where p: "p \<in> set m1" "endpoint p = (msg_address msg, msg_port msg)" by auto
      from p(1) Some k have pm: "p \<in> set ?m" "fst p \<noteq> k" by (auto simp: m1_def map_delete_filter)
      from e(2) have "endpoint (k, e) = (msg_address msg, msg_port msg)" by (simp add: endpoint_def)
      with p(2) have "endpoint p = endpoint (k, e)" by simp
      with inj pm(1) ke have "p = (k, e)" by (auto dest: inj_onD)
      with pm(2) show False by simp
    qed
  qed
  from fr sub have fr1: "sid \<notin> fst ` set m1" by auto
  have "cirrusServers (snd (registerServer msg sid t s)) =
        m1 @ [(sid, \<lparr>server_id = sid, address = msg_address msg, port = msg_port msg,
                 https = (case msg_https msg of Some b \<Rightarrow> b | None \<Rightarrow> False),
                 numConnectedClients = (if msg_playerConnected msg = Some True then 1 else 0),
                 lastPingReceived = t, ready = (msg_ready msg = Some True), lastRedirect = None,
                 server_metadata = (case msg_metadata msg of Some m \<Rightarrow> m | None \<Rightarrow> [])\<rparr>)]"
    using fr1 by (simp add: registerServer_def Let_def m1_def map_set_fresh)
  then show ?thesis using ok1 fr1 noep by (auto simp: servers_ok_def endpoint_def)
qed

subsection \<open>Effects of the operations\<close>

lemma getAvailableServer_fields [simp]:
  "clientSessions (snd (getAvailableServer t s)) = clientSessions s"
  "queueOrder (snd (getAvailableServer t s)) = queueOrder s"
  "emitted (snd (getAvailableServer t s)) = emitted s"
  "cirrusServers (snd (getAvailableServer t s)) = snd (firstAvailable t (cirrusServers s))"
  "fst (getAvailableServer t s) = fst (firstAvailable t (cirrusServers s))"
  by (simp_all add: getAvailableServer_def split: prod.splits)

lemma getAvailableServer_None:
  "fst (firstAvailable t (cirrusServers s)) = None \<Longrightarrow> getAvailableServer t s = (None, s)"
proof -
  assume n: "fst (firstAvailable t (cirrusServers s)) = None"
  obtain r m' where f: "firstAvailable t (cirrusServers s) = (r, m')" by (cases "firstAvailable t (cirrusServers s)")
  from n f have "r = None" by simp
  moreover from firstAvailable_None[OF n] f have "m' = cirrusServers s" by simp
  ultimately show ?thesis using f by (simp add: getAvailableServer_def)
qed

lemma processNextInQueue_empty:
  "queueOrder s = [] \<Longrightarrow> processNextInQueue t s = (False, s)"
  by (simp add: processNextInQueue_def)

lemma processNextInQueue_none:
  "fst (firstAvailable t (cirrusServers s)) = None \<Longrightarrow> processNextInQueue t s = (False, s)"
  by (simp add: processNextInQueue_def getAvailableServer_None)

lemma processNextInQueue_assigned:
  assumes "queueOrder s = sid # q'" "firstAvailable t (cirrusServers s) = (Some srv, m')"
    and "map_get sid (clientSessions s) = Some sess"
  shows "processNextInQueue t s =
     (True, s\<lparr>cirrusServers := m',
              clientSessions := map_set sid
                 (sess\<lparr>serverId := Some (server_id srv), status := Connected, lastActivity := t\<rparr>)
                 (clientSessions s),
              queueOrder := q',
              emitted := emitted s @ [ClientAssigned
                 (sess\<lparr>serverId := Some (server_id srv), status := Connected, lastActivity := t\<rparr>) srv]\<rparr>)"
  using assms by (simp add: processNextInQueue_def getAvailableServer_def Let_def)

lemma processNextInQueue_missing:
  assumes "queueOrder s = sid # q'" "firstAvailable t (cirrusServers s) = (Some srv, m')"
    and "map_get sid (clientSessions s) = None"
  shows "processNextInQueue t s = (False, s\<lparr>cirrusServers := m', queueOrder := q'\<rparr>)"
  using assms by (simp add: processNextInQueue_def getAvailableServer_def Let_def)

lemma removeSession_absent:
  "map_get sid (clientSessions s) = None \<Longrightarrow> removeSession sid s = s"
  by (simp add: removeSession_def)

lemma removeSession_present:
  "map_get sid (clientSessions s) = Some sess \<Longrightarrow>
   removeSession sid s = s\<lparr>clientSessions := map_delete sid (clientSessions s),
                           queueOrder := remove1 sid (queueOrder s),
                           emitted := emitted s @ [SessionRemoved sess]\<rparr>"
  using splice_remove_indexOf[of sid "queueOrder s"]
  by (simp add: removeSession_def Let_def)

lemma removeSession_servers [simp]: "cirrusServers (removeSession sid s) = cirrusServers s"
  by (simp add: removeSession_def Let_def split: option.splits)

lemma unregisterServer_fields [simp]:
  "cirrusServers (unregisterServer k s) = map_delete k (cirrusServers s)"
  "clientSessions (unregisterServer k s) = clientSessions s"
  "queueOrder (unregisterServer k s) = queueOrder s"
  by (simp_all add: unregisterServer_def map_delete_absent split: option.splits)

lemma updateServerStatus_fields [simp]:
  "clientSessions (updateServerStatus k msg t s) = clientSessions s"
  "queueOrder (updateServerStatus k msg t s) = queueOrder s"
  by (simp_all add: updateServerStatus_def Let_def split: option.splits)

lemma registerServer_fields [simp]:
  "clientSessions (snd (registerServer msg k t s)) = clientSessions s"
  "queueOrder (snd (registerServer msg k t s)) = queueOrder s"
  "fst (registerServer msg k t s) = k"
  by (simp_all add: registerServer_def Let_def)

lemma addToQueue_fields:
  "cirrusServers (snd (addToQueue cid p sid t s)) = cirrusServers s"
  "clientSessions (snd (addToQueue cid p sid t s)) = map_set sid (newSession cid p sid t) (clientSessions s)"
  "emitted (snd (addToQueue cid p sid t s)) = emitted s @ [ClientQueued (newSession cid p sid t)]"
  "fst (addToQueue cid p sid t s) = newSession cid p sid t"
  by (simp_all add: addToQueue_def Let_def newSession_def)

lemma addToQueue_queue:
  "queueOrder (snd (addToQueue cid p sid t s)) =
     takeWhile (\<lambda>y. \<not> lowerThan (map_set sid (newSession cid p sid t) (clientSessions s)) p y) (queueOrder s)
     @ sid # dropWhile (\<lambda>y. \<not> lowerThan (map_set sid (newSession cid p sid t) (clientSessions s)) p y) (queueOrder s)"
proof -
  let ?P = "lowerThan (map_set sid (newSession cid p sid t) (clientSessions s)) p"
  have "queueOrder (snd (addToQueue cid p sid t s)) =
     (if findIndex ?P (queueOrder s) = - 1 then queueOrder s @ [sid]
      else splice_insert (findIndex ?P (queueOrder s)) sid (queueOrder s))"
    by (simp add: addToQueue_def Let_def newSession_def lowerThan_def[abs_def])
  also have "\<dots> = takeWhile (\<lambda>y. \<not> ?P y) (queueOrder s) @ sid # dropWhile (\<lambda>y. \<not> ?P y) (queueOrder s)"
    by (rule insert_by_findIndex)
  finally show ?thesis .
qed

subsection \<open>Queue invariant\<close>

lemma isQueued_key: "isQueued m k \<Longrightarrow> k \<in> fst ` set m"
  by (auto simp: isQueued_def split: option.splits dest: map_get_Some_mem intro: rev_image_eqI)

lemma queue_ok_keys: "queue_ok m q \<Longrightarrow> set q \<subseteq> fst ` set m"
  by (auto simp: queue_ok_def list_all_iff dest: isQueued_key)

lemma prio_ge_cong:
  "map_get a m' = map_get a m \<Longrightarrow> map_get b m' = map_get b m \<Longrightarrow> prio_ge m' a b = prio_ge m a b"
  by (simp add: prio_ge_def split: option.splits)

lemma sorted_wrt_prio_cong:
  assumes "sorted_wrt (prio_ge m) q" and same: "\<And>k. k \<in> set q \<Longrightarrow> map_get k m' = map_get k m"
  shows "sorted_wrt (prio_ge m') q"
proof (rule sorted_wrt_mono_rel[OF _ assms(1)])
  fix x y assume "x \<in> set q" "y \<in> set q" "prio_ge m x y"
  then show "prio_ge m' x y" using prio_ge_cong[OF same same, of x y] by simp
qed

lemma queue_ok_cong:
  assumes ok: "queue_ok m q" and d: "distinct (map fst m')" and sub: "set q' \<subseteq> set q"
    and dq: "distinct q'" and srt: "sorted_wrt (prio_ge m) q'"
    and same: "\<And>k. k \<in> set q' \<Longrightarrow> map_get k m' = map_get k m"
  shows "queue_ok m' q'"
proof -
  have "list_all (isQueued m') q'"
    using ok sub same by (auto simp: queue_ok_def list_all_iff isQueued_def)
  moreover have "sorted_wrt (prio_ge m') q'"
    using srt same by (rule sorted_wrt_prio_cong)
  ultimately show ?thesis using d dq by (simp add: queue_ok_def)
qed

lemma queue_ok_tl:
  assumes ok: "queue_ok m (sid # q')" and get: "map_get sid m = Some x"
  shows "queue_ok (map_set sid x' m) q'"
proof (rule queue_ok_cong[OF ok])
  show "distinct (map fst (map_set sid x' m))" using ok by (simp add: queue_ok_def distinct_map_set)
  show "set q' \<subseteq> set (sid # q')" by auto
  show "distinct q'" using ok by (simp add: queue_ok_def)
  show "sorted_wrt (prio_ge m) q'" using ok by (simp add: queue_ok_def)
  fix k assume "k \<in> set q'"
  with ok have "k \<noteq> sid" by (auto simp: queue_ok_def)
  then show "map_get k (map_set sid x' m) = map_get k m" by (simp add: map_get_set)
qed

lemma queue_ok_tl_same: "queue_ok m (sid # q') \<Longrightarrow> queue_ok m q'"
  by (simp add: queue_ok_def)

lemma sorted_wrt_remove1: "sorted_wrt R xs \<Longrightarrow> sorted_wrt R (remove1 x xs)"
  by (induction xs) (auto dest: notin_set_remove1)

lemma queue_ok_remove:
  assumes ok: "queue_ok m q"
  shows "queue_ok (map_delete sid m) (remove1 sid q)"
proof (rule queue_ok_cong[OF ok])
  show "distinct (map fst (map_delete sid m))" using ok by (simp add: queue_ok_def distinct_map_delete)
  show "set (remove1 sid q) \<subseteq> set q" by (rule set_remove1_subset)
  show "distinct (remove1 sid q)" using ok by (simp add: queue_ok_def)
  show "sorted_wrt (prio_ge m) (remove1 sid q)" using ok by (simp add: queue_ok_def sorted_wrt_remove1)
  fix k assume "k \<in> set (remove1 sid q)"
  with ok have "k \<noteq> sid" by (simp add: queue_ok_def)
  then show "map_get k (map_delete sid m) = map_get k m" by (simp add: map_get_delete)
qed

lemma queue_ok_removeSession:
  "queue_ok (clientSessions s) (queueOrder s) \<Longrightarrow>
   queue_ok (clientSessions (removeSession sid s)) (queueOrder (removeSession sid s))"
  by (cases "map_get sid (clientSessions s)")
     (simp_all add: removeSession_absent removeSession_present queue_ok_remove)

lemma queue_ok_add:
  assumes ok: "queue_ok m q" and fr: "sid \<notin> fst ` set m"
    and st: "status new = Queued" and pr: "priority new = p"
  shows "queue_ok (map_set sid new m)
           (takeWhile (\<lambda>y. \<not> lowerThan (map_set sid new m) p y) q
            @ sid # dropWhile (\<lambda>y. \<not> lowerThan (map_set sid new m) p y) q)"
proof -
  let ?m' = "map_set sid new m"
  let ?P = "\<lambda>y. \<not> lowerThan ?m' p y"
  let ?tw = "takeWhile ?P q" and ?dw = "dropWhile ?P q"
  have q: "?tw @ ?dw = q" by simp
  have keys: "set q \<subseteq> fst ` set m" using ok by (rule queue_ok_keys)
  with fr have nq: "sid \<notin> set q" by auto
  have same: "map_get k ?m' = map_get k m" if "k \<in> set q" for k
    using that nq by (auto simp: map_get_set)
  have new: "map_get sid ?m' = Some new" by (simp add: map_get_set)
  have mem: "set ?tw \<subseteq> set q" "set ?dw \<subseteq> set q"
    by (auto dest: set_takeWhileD in_set_dropD simp: dropWhile_eq_drop)
  have srt: "sorted_wrt (prio_ge m) q" and allq: "list_all (isQueued m) q"
    using ok by (simp_all add: queue_ok_def)
  have srt': "sorted_wrt (prio_ge ?m') q"
    using srt same by (rule sorted_wrt_prio_cong)
  have allq': "list_all (isQueued ?m') q"
    using allq same by (auto simp: list_all_iff isQueued_def)
  have tw_ge: "prio_ge ?m' x sid" if "x \<in> set ?tw" for x
  proof -
    from that have np: "\<not> lowerThan ?m' p x" and xq: "x \<in> set q" by (auto dest: set_takeWhileD)
    from allq' xq obtain sx where "map_get x ?m' = Some sx" 
      by (auto simp: list_all_iff isQueued_def split: option.splits)
    with np new pr show ?thesis by (simp add: lowerThan_def prio_ge_def)
  qed
  have dw_le: "prio_ge ?m' sid y" if "y \<in> set ?dw" for y
  proof -
    from that have ne: "?dw \<noteq> []" by (auto simp del: dropWhile_eq_Nil_conv)
    then obtain d rest where dw: "?dw = d # rest" by (cases ?dw) auto
    from hd_dropWhile[OF ne] dw have low: "lowerThan ?m' p d" by simp
    then obtain sd where sd: "map_get d ?m' = Some sd" "priority sd < p"
      by (auto simp: lowerThan_def split: option.splits)
    have "sorted_wrt (prio_ge ?m') ?dw" using srt' by simp
    then have rest: "\<forall>z \<in> set rest. prio_ge ?m' d z" unfolding dw by simp
    from that dw have "y = d \<or> y \<in> set rest" by auto
    then show ?thesis
    proof
      assume "y = d"
      with sd new pr show ?thesis by (simp add: prio_ge_def)
    next
      assume "y \<in> set rest"
      with rest have "prio_ge ?m' d y" by blast
      with sd new pr show ?thesis by (auto simp: prio_ge_def split: option.splits)
    qed
  qed
  have cross: "prio_ge ?m' x y" if "x \<in> set ?tw" "y \<in> set ?dw" for x y
  proof -
    have "sorted_wrt (prio_ge ?m') (?tw @ ?dw)" using srt' by simp
    with that show ?thesis unfolding sorted_wrt_append by blast
  qed
  have "sorted_wrt (prio_ge ?m') (?tw @ sid # ?dw)"
    using srt' tw_ge dw_le cross by (simp add: sorted_wrt_append)
  moreover have "distinct (?tw @ sid # ?dw)"
  proof -
    have "distinct ?tw \<and> distinct ?dw \<and> set ?tw \<inter> set ?dw = {}"
      using ok distinct_append[of ?tw ?dw] by (simp add: queue_ok_def)
    then show ?thesis using nq mem by auto
  qed
  moreover have "list_all (isQueued ?m') (?tw @ sid # ?dw)"
  proof -
    have "isQueued ?m' sid" using new st by (simp add: isQueued_def)
    then show ?thesis using allq' mem by (auto simp: list_all_iff)
  qed
  moreover have "distinct (map fst ?m')" using ok by (simp add: queue_ok_def distinct_map_set)
  ultimately show ?thesis by (simp add: queue_ok_def)
qed

lemma queue_ok_addToQueue:
  assumes "queue_ok (clientSessions s) (queueOrder s)" "sid \<notin> fst ` set (clientSessions s)"
  shows "queue_ok (clientSessions (snd (addToQueue cid p sid t s)))
                  (queueOrder (snd (addToQueue cid p sid t s)))"
  unfolding addToQueue_fields addToQueue_queue
  by (rule queue_ok_add[OF assms]) (simp_all add: newSession_def)

lemma queue_ok_processNextInQueue:
  assumes ok: "queue_ok (clientSessions s) (queueOrder s)"
  shows "queue_ok (clientSessions (snd (processNextInQueue t s)))
                  (queueOrder (snd (processNextInQueue t s)))"
proof (cases "queueOrder s")
  case Nil
  then show ?thesis using ok by (simp add: processNextInQueue_empty)
next
  case (Cons sid q')
  show ?thesis
  proof (cases "firstAvailable t (cirrusServers s)")
    case (Pair r m')
    show ?thesis
    proof (cases r)
      case None
      with Pair have "fst (firstAvailable t (cirrusServers s)) = None" by simp
      then show ?thesis using ok by (simp add: processNextInQueue_none)
    next
      case (Some srv)
      with Pair have fa: "firstAvailable t (cirrusServers s) = (Some srv, m')" by simp
      show ?thesis
      proof (cases "map_get sid (clientSessions s)")
        case None
        show ?thesis using ok Cons
          by (simp add: processNextInQueue_missing[OF Cons fa None] queue_ok_tl_same)
      next
        case (Some sess)
        show ?thesis using ok Cons Some
          by (simp add: processNextInQueue_assigned[OF Cons fa Some] queue_ok_tl)
      qed
    qed
  qed
qed

subsection \<open>Every reachable state satisfies the invariants\<close>

lemma foldl_invariant:
  assumes "P s" and "\<And>s' x. P s' \<Longrightarrow> P (f s' x)"
  shows "P (foldl f s xs)"
  using assms(1) by (induction xs arbitrary: s) (simp_all add: assms(2))

lemma cleanupExpiredSessions_invariant:
  assumes "P s" and "\<And>s' k. P s' \<Longrightarrow> P (removeSession k s')"
  shows "P (cleanupExpiredSessions t timeoutMs s)"
  unfolding cleanupExpiredSessions_def
  by (rule foldl_invariant[where P = P, OF assms(1)]) (auto simp: assms(2) split: prod.splits)

lemma cleanupStaleServers_invariant:
  assumes "P s" and "\<And>s' k. P s' \<Longrightarrow> P (unregisterServer k s')"
  shows "P (cleanupStaleServers t s)"
  unfolding cleanupStaleServers_def
  by (rule foldl_invariant[where P = P, OF assms(1)]) (auto simp: assms(2) split: prod.splits)

lemma servers_ok_updateServerStatus:
  assumes ok: "servers_ok (cirrusServers s)"
  shows "servers_ok (cirrusServers (updateServerStatus k msg t s))"
proof (cases "map_get k (cirrusServers s)")
  case None
  then show ?thesis using ok by (simp add: updateServerStatus_def)
next
  case (Some srv)
  then have "(k, srv) \<in> set (cirrusServers s)" by (rule map_get_Some_mem)
  with ok have n: "0 \<le> numConnectedClients srv" by (auto simp: servers_ok_def)
  show ?thesis
    using n by (cases "msg_type msg")
      (simp_all add: updateServerStatus_def Some Let_def servers_ok_update[OF ok Some])
qed

lemma engine_ok_removeSession: "engine_ok s \<Longrightarrow> engine_ok (removeSession k s)"
  by (simp add: engine_ok_def queue_ok_removeSession)

lemma engine_ok_unregisterServer: "engine_ok s \<Longrightarrow> engine_ok (unregisterServer k s)"
  by (simp add: engine_ok_def servers_ok_delete)

lemma processNextInQueue_servers:
  "cirrusServers (snd (processNextInQueue t s)) = cirrusServers s
   \<or> cirrusServers (snd (processNextInQueue t s)) = snd (firstAvailable t (cirrusServers s))"
  by (auto simp: processNextInQueue_def getAvailableServer_def Let_def
      split: prod.splits option.splits list.splits)

lemma engine_ok_exec:
  assumes ok: "engine_ok s" and fr: "fresh s c"
  shows "engine_ok (exec c s)"
proof (cases c)
  case (RegisterServer msg k t)
  then show ?thesis using ok fr by (simp add: engine_ok_def servers_ok_register)
next
  case (UpdateServerStatus k msg t)
  then show ?thesis using ok by (simp add: engine_ok_def servers_ok_updateServerStatus)
next
  case (UnregisterServer k)
  then show ?thesis using ok by (simp add: engine_ok_unregisterServer)
next
  case (GetAvailableServer t)
  then show ?thesis using ok by (simp add: engine_ok_def servers_ok_firstAvailable)
next
  case (AddToQueue cid p k t)
  then show ?thesis using ok fr
    by (simp add: engine_ok_def queue_ok_addToQueue addToQueue_fields(1))
next
  case (ProcessNextInQueue t)
  have "servers_ok (cirrusServers (snd (processNextInQueue t s)))"
    using processNextInQueue_servers[of t s] ok
    by (auto simp: engine_ok_def servers_ok_firstAvailable)
  then show ?thesis using ok ProcessNextInQueue
    by (simp add: engine_ok_def queue_ok_processNextInQueue)
next
  case (RemoveSession k)
  then show ?thesis using ok by (simp add: engine_ok_removeSession)
next
  case (CleanupExpiredSessions t timeoutMs)
  then show ?thesis using ok
    by (simp add: cleanupExpiredSessions_invariant[where P = engine_ok] engine_ok_removeSession)
next
  case (CleanupStaleServers t)
  then show ?thesis using ok
    by (simp add: cleanupStaleServers_invariant[where P = engine_ok] engine_ok_unregisterServer)
qed

lemma engine_ok_empty: "engine_ok emptyEngine"
  by (simp add: engine_ok_def emptyEngine_def servers_ok_def queue_ok_def)

lemma reachable_engine_ok: "reachable s \<Longrightarrow> engine_ok s"
  by (induction rule: reachable.induct) (simp_all add: engine_ok_empty engine_ok_exec)

lemma engine_ok_run: "engine_ok s \<Longrightarrow> fresh_run s cs \<Longrightarrow> engine_ok (run cs s)"
  by (induction cs arbitrary: s) (simp_all add: engine_ok_exec)

lemma reachable_run: "reachable s \<Longrightarrow> fresh_run s cs \<Longrightarrow> reachable (run cs s)"
  by (induction cs arbitrary: s) (simp_all add: reachable.step)

subsection \<open>The example states\<close>

lemma reachable_oneNode: "reachable (oneNode t)"
  unfolding oneNode_def by (rule reachable.step[OF reachable.init]) (simp add: emptyEngine_def)

lemma reachable_oneQueued: "reachable oneQueued"
  unfolding oneQueued_def by (rule reachable.step[OF reachable.init]) (simp add: emptyEngine_def)

lemma oneNode_servers:
  "cirrusServers (oneNode t) =
     [(''n1'', \<lparr>server_id = ''n1'', address = Some ''10.0.0.1'', port = Some 8080,
         https = False, numConnectedClients = 0, lastPingReceived = t,
         ready = True, lastRedirect = None, server_metadata = []\<rparr>)]"
  by (simp add: oneNode_def connectMsg_def emptyEngine_def registerServer_def
        findServerByAddress_def Let_def)

lemma oneQueued_fields:
  "queueOrder oneQueued = [''s1'']"
  "clientSessions oneQueued = [(''s1'', newSession (Some ''c1'') 0 ''s1'' 0)]"
  "cirrusServers oneQueued = []"
  by (simp_all add: oneQueued_def addToQueue_def emptyEngine_def Let_def newSession_def)

lemma count_list_distinct: "distinct xs \<Longrightarrow> x \<in> set xs \<Longrightarrow> count_list xs x = 1"
  by (induction xs) (auto simp: count_list_0_iff)

subsection \<open>The sweep of stale servers\<close>

lemma unregisterServer_emitted_mono: "set (emitted s) \<subseteq> set (emitted (unregisterServer k s))"
  by (auto simp: unregisterServer_def split: option.splits)

lemma staleSweep_get:
  "map_get k (cirrusServers
      (foldl (\<lambda>s' (serverId', server).
                if isExpired t (lastPingReceived server) 120000
                then unregisterServer serverId' s' else s') s xs))
   = (if \<exists>srv. (k, srv) \<in> set xs \<and> isExpired t (lastPingReceived srv) 120000 then None
      else map_get k (cirrusServers s))"
proof (induction xs arbitrary: s)
  case Nil
  show ?case by simp
next
  case (Cons x xs)
  obtain k' srv' where x: "x = (k', srv')" by (cases x)
  show ?case unfolding x foldl_Cons Cons.IH
    by (auto simp: map_get_delete)
qed

lemma staleSweep_emitted_mono:
  "set (emitted s) \<subseteq> set (emitted
      (foldl (\<lambda>s' (serverId', server).
                if isExpired t (lastPingReceived server) 120000
                then unregisterServer serverId' s' else s') s xs))"
proof (induction xs arbitrary: s)
  case Nil
  show ?case by simp
next
  case (Cons x xs)
  obtain k' srv' where x: "x = (k', srv')" by (cases x)
  show ?case unfolding x foldl_Cons
    using Cons.IH[of "unregisterServer k' s"] Cons.IH[of s] unregisterServer_emitted_mono[of s k']
    by (cases "isExpired t (lastPingReceived srv') 120000") auto
qed

lemma staleSweep_event:
  assumes "distinct (map fst xs)" "(k, srv) \<in> set xs" "isExpired t (lastPingReceived srv) 120000"
    and "map_get k (cirrusServers s) = Some srv"
  shows "ServerUnregistered srv \<in> set (emitted
      (foldl (\<lambda>s' (serverId', server).
                if isExpired t (lastPingReceived server) 120000
                then unregisterServer serverId' s' else s') s xs))"
  using assms
proof (induction xs arbitrary: s)
  case Nil
  then show ?case by simp
next
  case (Cons x xs)
  obtain k' srv' where x: "x = (k', srv')" by (cases x)
  show ?case
  proof (cases "x = (k, srv)")
    case True
    have "ServerUnregistered srv \<in> set (emitted (unregisterServer k s))"
      using Cons.prems(4) by (simp add: unregisterServer_def)
    then show ?thesis
      using staleSweep_emitted_mono[of "unregisterServer k s" t xs] True Cons.prems(3) by auto
  next
    case False
    with Cons.prems(2) have mem: "(k, srv) \<in> set xs" by simp
    with Cons.prems(1) x have ne: "k' \<noteq> k" by (auto simp: rev_image_eqI)
    have d: "distinct (map fst xs)" using Cons.prems(1) by simp
    show ?thesis
    proof (cases "isExpired t (lastPingReceived srv') 120000")
      case True
      have "map_get k (cirrusServers (unregisterServer k' s)) = Some srv"
        using ne Cons.prems(4) by (simp add: map_get_delete)
      from Cons.IH[OF d mem Cons.prems(3) this] show ?thesis using True x by simp
    next
      case False
      from Cons.IH[OF d mem Cons.prems(3) Cons.prems(4)] show ?thesis using False x by simp
    qed
  qed
qed

subsection \<open>Registering at an address that is taken\<close>

lemma findServerByAddress_unique:
  assumes ok: "servers_ok m" and get: "map_get k m = Some e"
  shows "findServerByAddress (address e) (port e) m = Some e"
proof -
  from get have mem: "(k, e) \<in> set m" by (rule map_get_Some_mem)
  have inj: "inj_on endpoint (set m)" using ok by (simp add: servers_ok_def distinct_map)
  let ?P = "\<lambda>server. address server = address e \<and> port server = port e"
  from mem have "\<exists>x \<in> set (map snd m). ?P x" by force
  then obtain x where f: "List.find ?P (map snd m) = Some x"
    by (cases "List.find ?P (map snd m)") (auto simp: find_None_iff)
  then have "x \<in> set (map snd m)" "?P x" by (auto simp: find_Some_iff)
  then obtain k' where x: "(k', x) \<in> set m" by auto
  from \<open>?P x\<close> have "endpoint (k', x) = endpoint (k, e)" by (simp add: endpoint_def)
  with inj x mem have "(k', x) = (k, e)" by (auto dest: inj_onD)
  with f show ?thesis by (simp add: findServerByAddress_def)
qed

lemma map_get_append:
  "map_get k (m @ m') = (case map_get k m of Some v \<Rightarrow> Some v | None \<Rightarrow> map_get k m')"
  by (induction m) auto

subsection \<open>Draining the queue\<close>

lemma firstAvailable_count:
  "length (filter (\<lambda>p. isServerAvailable t (snd p)) m)
   \<le> Suc (length (filter (\<lambda>p. isServerAvailable t (snd p)) (snd (firstAvailable t m))))"
proof (cases "fst (firstAvailable t m)")
  case None
  then show ?thesis by (simp add: firstAvailable_None)
next
  case (Some N)
  then have "firstAvailable t m = (Some N, snd (firstAvailable t m))" by (simp add: prod_eq_iff)
  from firstAvailable_Some[OF this] obtain pre k N0 post where
    "m = pre @ (k, N0) # post" "snd (firstAvailable t m) = pre @ (k, N) # post" by blast
  then show ?thesis by simp
qed

lemma processQueue_drains:
  assumes "reachable s"
    and "length (queueOrder s) \<le> length (filter (\<lambda>p. isServerAvailable t (snd p)) (cirrusServers s))"
  shows "queueOrder (processQueue t s) = []"
  using assms
proof (induction "length (queueOrder s)" arbitrary: s)
  case 0
  then have "processNextInQueue t s = (False, s)" by (simp add: processNextInQueue_empty)
  then have "processQueue t s = s" by (simp add: processQueue.simps)
  with 0 show ?case by simp
next
  case (Suc n)
  from Suc.hyps(2) obtain sid q' where c: "queueOrder s = sid # q'" and n: "length q' = n"
    by (cases "queueOrder s") auto
  from Suc.prems(2) c have "filter (\<lambda>p. isServerAvailable t (snd p)) (cirrusServers s) \<noteq> []"
    by auto
  then have "fst (firstAvailable t (cirrusServers s)) \<noteq> None"
    by (auto simp: firstAvailable_None_iff filter_empty_conv)
  then obtain srv m' where fa: "firstAvailable t (cirrusServers s) = (Some srv, m')"
    by (cases "firstAvailable t (cirrusServers s)") auto
  from Suc.prems(1) have "queue_ok (clientSessions s) (queueOrder s)"
    by (auto dest: reachable_engine_ok simp: engine_ok_def)
  with c obtain sess where g: "map_get sid (clientSessions s) = Some sess"
    by (auto simp: queue_ok_def isQueued_def split: option.splits)
  from processNextInQueue_assigned[OF c fa g] obtain s' where
    p: "processNextInQueue t s = (True, s')" and q': "queueOrder s' = q'"
    and m': "cirrusServers s' = m'" by simp
  have r: "reachable s'"
    using reachable.step[OF Suc.prems(1), of "ProcessNextInQueue t"] p by simp
  have "m' = snd (firstAvailable t (cirrusServers s))" using fa by simp
  then have "length q' \<le> length (filter (\<lambda>p. isServerAvailable t (snd p)) (cirrusServers s'))"
    using Suc.prems(2) c firstAvailable_count[of t "cirrusServers s"] m' by simp
  with Suc.hyps(1)[of s'] n q' r have "queueOrder (processQueue t s') = []" by simp
  moreover have "processQueue t s = processQueue t s'"
    by (subst processQueue.simps) (simp add: p)
  ultimately show ?case by simp
qed

lemma reachable_twoAndTwo: "reachable twoAndTwo"
  unfolding twoAndTwo_def
  by (rule reachable_run[OF reachable.init])
     (simp add: emptyEngine_def registerServer_def connectMsg_def findServerByAddress_def
        addToQueue_def Let_def)

lemma twoAndTwo_fields:
  "queueOrder twoAndTwo = [''s1'', ''s2'']"
  "cirrusServers twoAndTwo =
     [(''n1'', \<lparr>server_id = ''n1'', address = Some ''10.0.0.1'', port = Some 8080,
         https = False, numConnectedClients = 0, lastPingReceived = 0,
         ready = True, lastRedirect = None, server_metadata = []\<rparr>),
      (''n2'', \<lparr>server_id = ''n2'', address = Some ''10.0.0.2'', port = Some 8080,
         https = False, numConnectedClients = 0, lastPingReceived = 0,
         ready = True, lastRedirect = None, server_metadata = []\<rparr>)]"
  "clientSessions twoAndTwo =
     [(''s1'', newSession (Some ''c1'') 0 ''s1'' 1), (''s2'', newSession (Some ''c2'') 0 ''s2'' 2)]"
  by (simp_all add: twoAndTwo_def emptyEngine_def registerServer_def connectMsg_def
        findServerByAddress_def addToQueue_def Let_def newSession_def splice_insert_def)

subsection \<open>The cooldown of an assigned server\<close>




lemma cleanupExpiredSessions_servers [simp]:
  "cirrusServers (cleanupExpiredSessions t timeoutMs s) = cirrusServers s"
  by (rule cleanupExpiredSessions_invariant[where P = "\<lambda>s'. cirrusServers s' = cirrusServers s"])
     simp_all




subsection \<open>The order of two queued sessions\<close>

lemma precedes_mem: "precedes a b xs \<Longrightarrow> a \<in> set xs \<and> b \<in> set xs"
  by (induction xs) (auto split: if_splits)

lemma precedes_insert:
  "c \<noteq> a \<Longrightarrow> c \<noteq> b \<Longrightarrow> precedes a b (us @ c # vs) = precedes a b (us @ vs)"
  by (induction us) auto

lemma precedes_remove1:
  "c \<noteq> a \<Longrightarrow> c \<noteq> b \<Longrightarrow> precedes a b (remove1 c xs) = precedes a b xs"
  by (induction xs) auto

lemma precedes_append_Cons: "a \<in> set us \<Longrightarrow> precedes a b (us @ b # vs)"
  by (induction us) auto

lemma findIndex_nonneg: "\<exists>x \<in> set xs. P x \<Longrightarrow> 0 \<le> findIndex P xs"
  using findIndex_ge[of P xs] findIndex_none[of P xs] by force

lemma precedes_indexOf:
  "distinct xs \<Longrightarrow> precedes a b xs \<Longrightarrow> indexOf a xs < indexOf b xs"
proof (induction xs)
  case Nil
  then show ?case by simp
next
  case (Cons x xs)
  show ?case
  proof (cases "x = a")
    case True
    with Cons.prems have b: "b \<in> set xs" "b \<noteq> a" by auto
    then have "0 \<le> indexOf b xs" unfolding indexOf_def by (intro findIndex_nonneg) auto
    with True b show ?thesis by (simp add: indexOf_def Let_def)
  next
    case False
    with Cons.prems have p: "precedes a b xs" by simp
    then have mem: "a \<in> set xs" "b \<in> set xs" by (auto dest: precedes_mem)
    with Cons.prems(1) have xb: "x \<noteq> b" by auto
    from mem have "indexOf a xs \<noteq> - 1" "indexOf b xs \<noteq> - 1" by (simp_all add: indexOf_none)
    moreover from Cons.IH p Cons.prems(1) have "indexOf a xs < indexOf b xs" by simp
    ultimately show ?thesis using False xb by (simp add: indexOf_def Let_def)
  qed
qed

lemma takeWhile_contains:
  assumes "sorted_wrt R xs" "x \<in> set xs" "P x" and "\<And>y. y \<in> set xs \<Longrightarrow> R y x \<Longrightarrow> P y"
  shows "x \<in> set (takeWhile P xs)"
  using assms
proof (induction xs)
  case Nil
  then show ?case by simp
next
  case (Cons h xs)
  show ?case
  proof (cases "h = x")
    case True
    with Cons.prems(3) show ?thesis by simp
  next
    case False
    with Cons.prems have x: "x \<in> set xs" and "R h x" by auto
    with Cons.prems(4) have "P h" by simp
    moreover have "x \<in> set (takeWhile P xs)"
      using Cons.prems by (intro Cons.IH) (auto simp: x)
    ultimately show ?thesis by simp
  qed
qed

lemma ahead_after_enqueue:
  assumes ok: "queue_ok (clientSessions s) (queueOrder s)"
    and q1: "a \<in> set (queueOrder s)" and g1: "map_get a (clientSessions s) = Some x"
    and pr: "p \<le> priority x" and fr: "b \<notin> fst ` set (clientSessions s)"
  shows "ahead a b (snd (addToQueue cid p b t s))"
proof -
  let ?m = "clientSessions s" and ?q = "queueOrder s"
  let ?m' = "map_set b (newSession cid p b t) ?m"
  let ?P = "\<lambda>y. \<not> lowerThan ?m' p y"
  from g1 have "a \<in> fst ` set ?m" by (auto dest: map_get_Some_mem intro: rev_image_eqI)
  with fr have ne: "a \<noteq> b" by auto
  have same: "map_get y ?m' = map_get y ?m" if "y \<in> set ?q" for y
    using that queue_ok_keys[OF ok] fr by (auto simp: map_get_set)
  have Pa: "?P a" using same[OF q1] g1 pr by (simp add: lowerThan_def)
  have up: "?P y" if "y \<in> set ?q" "prio_ge ?m y a" for y
    using that same[OF that(1)] g1 pr by (auto simp: lowerThan_def prio_ge_def split: option.splits)
  have "sorted_wrt (prio_ge ?m) ?q" using ok by (simp add: queue_ok_def)
  then have "a \<in> set (takeWhile ?P ?q)" using q1 Pa up by (rule takeWhile_contains)
  then have "precedes a b (takeWhile ?P ?q @ b # dropWhile ?P ?q)" by (rule precedes_append_Cons)
  then show ?thesis by (simp add: ahead_def addToQueue_queue)
qed

lemma ahead_removeSession:
  assumes d: "distinct (queueOrder s)" and J: "ahead a b s" and ne: "a \<noteq> b"
  shows "ahead a b (removeSession k s)"
proof (cases "map_get k (clientSessions s)")
  case None
  then show ?thesis using J by (simp add: removeSession_absent)
next
  case (Some sess)
  let ?q = "queueOrder s"
  show ?thesis unfolding ahead_def removeSession_present[OF Some]
  proof (simp, intro impI conjI)
    assume a: "a \<in> set (remove1 k ?q)" and b: "b \<in> set (remove1 k ?q)"
    with d have "a \<in> set ?q" "b \<in> set ?q" "k \<noteq> a" "k \<noteq> b" by auto
    with J show "precedes a b (remove1 k ?q)" by (simp add: ahead_def precedes_remove1)
  next
    assume a: "a \<in> set (remove1 k ?q)" and b: "b \<notin> set (remove1 k ?q)"
    with d have aq: "a \<in> set ?q" and "b \<notin> set ?q \<or> b = k" by auto
    then show "map_get b (map_delete k (clientSessions s)) = None"
    proof (cases "b = k")
      case True
      then show ?thesis by (simp add: map_get_delete)
    next
      case False
      with \<open>b \<notin> set ?q \<or> b = k\<close> have "b \<notin> set ?q" by simp
      with J aq have "map_get b (clientSessions s) = None" by (simp add: ahead_def)
      then show ?thesis by (simp add: map_get_delete)
    qed
  qed
qed

lemma ahead_pop:
  assumes d: "distinct (queueOrder s)" and c: "queueOrder s = h # q'" and J: "ahead a b s"
    and q: "queueOrder s' = q'"
    and m: "b \<noteq> h \<Longrightarrow> map_get b (clientSessions s') = map_get b (clientSessions s)"
  shows "ahead a b s'"
  unfolding ahead_def q
proof (intro impI)
  assume a: "a \<in> set q'"
  with d c have ah: "a \<noteq> h" and aq: "a \<in> set (queueOrder s)" by auto
  show "if b \<in> set q' then precedes a b q' else map_get b (clientSessions s') = None"
  proof (cases "b \<in> set (queueOrder s)")
    case True
    with J aq have "precedes a b (queueOrder s)" by (simp add: ahead_def)
    with c ah have p: "precedes a b q'" by simp
    then have "b \<in> set q'" by (auto dest: precedes_mem)
    with p show ?thesis by simp
  next
    case False
    with J aq have n: "map_get b (clientSessions s) = None" by (simp add: ahead_def)
    from False c have "b \<noteq> h" "b \<notin> set q'" by auto
    with m n show ?thesis by simp
  qed
qed

lemma ahead_processNextInQueue:
  assumes d: "distinct (queueOrder s)" and J: "ahead a b s"
  shows "ahead a b (snd (processNextInQueue t s))"
proof (cases "queueOrder s")
  case Nil
  then show ?thesis using J by (simp add: processNextInQueue_empty)
next
  case (Cons h q')
  show ?thesis
  proof (cases "firstAvailable t (cirrusServers s)")
    case (Pair r m')
    show ?thesis
    proof (cases r)
      case None
      with Pair have "fst (firstAvailable t (cirrusServers s)) = None" by simp
      then show ?thesis using J by (simp add: processNextInQueue_none)
    next
      case (Some srv)
      with Pair have fa: "firstAvailable t (cirrusServers s) = (Some srv, m')" by simp
      show ?thesis
      proof (cases "map_get h (clientSessions s)")
        case None
        show ?thesis
          by (rule ahead_pop[OF d Cons J]) (simp_all add: processNextInQueue_missing[OF Cons fa None])
      next
        case (Some sess)
        show ?thesis
          by (rule ahead_pop[OF d Cons J])
             (simp_all add: processNextInQueue_assigned[OF Cons fa Some] map_get_set)
      qed
    qed
  qed
qed

lemma cleanupStaleServers_sessions [simp]:
  "clientSessions (cleanupStaleServers t s) = clientSessions s"
  "queueOrder (cleanupStaleServers t s) = queueOrder s"
proof -
  have "clientSessions (cleanupStaleServers t s) = clientSessions s
        \<and> queueOrder (cleanupStaleServers t s) = queueOrder s"
    by (rule cleanupStaleServers_invariant[where
          P = "\<lambda>s'. clientSessions s' = clientSessions s \<and> queueOrder s' = queueOrder s"])
       simp_all
  then show "clientSessions (cleanupStaleServers t s) = clientSessions s"
    "queueOrder (cleanupStaleServers t s) = queueOrder s" by simp_all
qed

lemma ahead_same:
  "ahead a b s \<Longrightarrow> queueOrder s' = queueOrder s \<Longrightarrow> clientSessions s' = clientSessions s
   \<Longrightarrow> ahead a b s'"
  by (simp add: ahead_def)

lemma ahead_exec:
  assumes ok: "engine_ok s" and fr: "fresh s c" and J: "ahead a b s" and ne: "a \<noteq> b"
    and na: "\<not> enqueues a c" and nb: "\<not> enqueues b c"
  shows "ahead a b (exec c s)"
proof -
  from ok have d: "distinct (queueOrder s)" by (simp add: engine_ok_def queue_ok_def)
  show ?thesis
  proof (cases c)
    case (RegisterServer msg k t)
    show ?thesis unfolding RegisterServer by (rule ahead_same[OF J]) simp_all
  next
    case (UpdateServerStatus k msg t)
    show ?thesis unfolding UpdateServerStatus by (rule ahead_same[OF J]) simp_all
  next
    case (UnregisterServer k)
    show ?thesis unfolding UnregisterServer by (rule ahead_same[OF J]) simp_all
  next
    case (GetAvailableServer t)
    show ?thesis unfolding GetAvailableServer by (rule ahead_same[OF J]) simp_all
  next
    case (AddToQueue cid p k t)
    with na nb have k: "k \<noteq> a" "k \<noteq> b" by auto
    let ?P = "\<lambda>y. \<not> lowerThan (map_set k (newSession cid p k t) (clientSessions s)) p y"
    let ?tw = "takeWhile ?P (queueOrder s)" and ?dw = "dropWhile ?P (queueOrder s)"
    let ?s' = "exec (AddToQueue cid p k t) s"
    have qe: "queueOrder ?s' = ?tw @ k # ?dw" by (simp add: addToQueue_queue)
    have me: "map_get b (clientSessions ?s') = map_get b (clientSessions s)"
      using k by (simp add: addToQueue_fields map_get_set)
    have un: "set ?tw \<union> set ?dw = set (queueOrder s)"
      using set_append[of ?tw ?dw] by simp
    have sa: "(a \<in> set (?tw @ k # ?dw)) = (a \<in> set (queueOrder s))"
      using k(1) un by auto
    have sb: "(b \<in> set (?tw @ k # ?dw)) = (b \<in> set (queueOrder s))"
      using k(2) un by auto
    have pe: "precedes a b (?tw @ k # ?dw) = precedes a b (queueOrder s)"
      using precedes_insert[OF k, of ?tw ?dw] by simp
    have "ahead a b ?s'" unfolding ahead_def qe me sa sb pe using J unfolding ahead_def .
    then show ?thesis unfolding AddToQueue .
  next
    case (ProcessNextInQueue t)
    then show ?thesis using d J by (simp add: ahead_processNextInQueue)
  next
    case (RemoveSession k)
    then show ?thesis using d J ne by (simp add: ahead_removeSession)
  next
    case (CleanupExpiredSessions t timeoutMs)
    have "engine_ok (cleanupExpiredSessions t timeoutMs s) \<and> ahead a b (cleanupExpiredSessions t timeoutMs s)"
    proof (rule cleanupExpiredSessions_invariant[where P = "\<lambda>s'. engine_ok s' \<and> ahead a b s'"])
      show "engine_ok s \<and> ahead a b s" using ok J by simp
    next
      fix s' k assume h: "engine_ok s' \<and> ahead a b s'"
      then have "distinct (queueOrder s')" by (simp add: engine_ok_def queue_ok_def)
      with h ne have "ahead a b (removeSession k s')" by (intro ahead_removeSession) simp_all
      moreover from h have "engine_ok (removeSession k s')" by (simp add: engine_ok_removeSession)
      ultimately show "engine_ok (removeSession k s') \<and> ahead a b (removeSession k s')" by simp
    qed
    then show ?thesis using CleanupExpiredSessions by simp
  next
    case (CleanupStaleServers t)
    show ?thesis unfolding CleanupStaleServers by (rule ahead_same[OF J]) simp_all
  qed
qed

lemma ahead_run:
  "engine_ok s \<Longrightarrow> fresh_run s cs \<Longrightarrow> ahead a b s \<Longrightarrow> a \<noteq> b
   \<Longrightarrow> list_all (\<lambda>c. \<not> enqueues a c \<and> \<not> enqueues b c) cs
   \<Longrightarrow> ahead a b (run cs s)"
proof (induction cs arbitrary: s)
  case Nil
  then show ?case by simp
next
  case (Cons c cs)
  from Cons.prems have ok': "engine_ok (exec c s)" by (simp add: engine_ok_exec)
  from Cons.prems have J': "ahead a b (exec c s)" by (intro ahead_exec) simp_all
  from Cons.IH[OF ok' _ J'] Cons.prems show ?case by simp
qed

section \<open>The claims\<close>

subsection \<open>C1: processNextInQueue assigns one session, processQueue drains\<close>

text \<open>
  C1, as stated, fails: \<open>processNextInQueue\<close> has no loop. With the two sessions
  \<open>s1\<close>, \<open>s2\<close> queued and the two nodes \<open>n1\<close>, \<open>n2\<close> eligible, one call leaves \<open>s2\<close>
  in the queue.
\<close>

theorem processNextInQueue_single_call_counterexample:
  "length (queueOrder twoAndTwo) = 2
   \<and> map (isServerAvailable 3 \<circ> snd) (cirrusServers twoAndTwo) = [True, True]
   \<and> queueOrder (snd (processNextInQueue 3 twoAndTwo)) = [''s2'']"
  by (simp add: twoAndTwo_fields isServerAvailable_def processNextInQueue_def
      getAvailableServer_def Let_def newSession_def)

text \<open>
  C1, amended. In every reachable state a single call of \<open>processNextInQueue\<close> does one
  step of the loop: with an empty queue or no eligible server it returns \<open>false\<close> and
  changes nothing; otherwise it acquires the first eligible server, pops the head session,
  sets its \<open>status\<close> to \<open>connected\<close>, its \<open>serverId\<close> to the acquired server's id and its
  \<open>lastActivity\<close> to now, emits \<open>clientAssigned\<close> and returns \<open>true\<close>. The loop is the
  caller's \<open>processQueue\<close>, which repeats the call while it returns \<open>true\<close>: with k
  queued sessions and at least k eligible servers it leaves the queue empty.
\<close>

theorem processNextInQueue_one_assignment:
  assumes "reachable s"
  shows "(queueOrder s = [] \<or> fst (getAvailableServer t s) = None
            \<longrightarrow> processNextInQueue t s = (False, s))
       \<and> (\<forall>sessionId queue' server s1.
             queueOrder s = sessionId # queue' \<and> getAvailableServer t s = (Some server, s1)
             \<longrightarrow> (\<exists>session. map_get sessionId (clientSessions s) = Some session
                    \<and> processNextInQueue t s =
                        (True,
                         s1\<lparr>clientSessions := map_set sessionId
                               (session\<lparr>serverId := Some (server_id server), status := Connected,
                                        lastActivity := t\<rparr>) (clientSessions s),
                            queueOrder := queue',
                            emitted := emitted s @ [ClientAssigned
                               (session\<lparr>serverId := Some (server_id server), status := Connected,
                                        lastActivity := t\<rparr>) server]\<rparr>)))
       \<and> (length (queueOrder s)
             \<le> length (filter (\<lambda>p. isServerAvailable t (snd p)) (cirrusServers s))
           \<longrightarrow> queueOrder (processQueue t s) = [])"
proof -
  have 1: "processNextInQueue t s = (False, s)"
    if "queueOrder s = [] \<or> fst (getAvailableServer t s) = None"
    using that by (auto simp: processNextInQueue_empty processNextInQueue_none)
  have 2: "\<exists>session. map_get sid (clientSessions s) = Some session
                    \<and> processNextInQueue t s =
                        (True,
                         s1\<lparr>clientSessions := map_set sid
                               (session\<lparr>serverId := Some (server_id srv), status := Connected,
                                        lastActivity := t\<rparr>) (clientSessions s),
                            queueOrder := q',
                            emitted := emitted s @ [ClientAssigned
                               (session\<lparr>serverId := Some (server_id srv), status := Connected,
                                        lastActivity := t\<rparr>) srv]\<rparr>)"
    if c: "queueOrder s = sid # q'" and a: "getAvailableServer t s = (Some srv, s1)"
    for sid q' srv s1
  proof -
    from assms have "queue_ok (clientSessions s) (queueOrder s)"
      by (auto dest: reachable_engine_ok simp: engine_ok_def)
    with c obtain sess where g: "map_get sid (clientSessions s) = Some sess"
      by (auto simp: queue_ok_def isQueued_def split: option.splits)
    from a obtain m' where fa: "firstAvailable t (cirrusServers s) = (Some srv, m')"
      and s1: "s1 = s\<lparr>cirrusServers := m'\<rparr>"
      by (auto simp: getAvailableServer_def split: prod.splits)
    show ?thesis
      using g by (simp add: processNextInQueue_assigned[OF c fa g] s1)
  qed
  from 1 2 processQueue_drains[OF assms] show ?thesis by blast
qed

text \<open>
  The amended theorem at the state with two queued sessions and two eligible nodes.
\<close>

theorem processNextInQueue_one_assignment_witness:
  "reachable twoAndTwo
   \<and> length (queueOrder twoAndTwo)
       \<le> length (filter (\<lambda>p. isServerAvailable 3 (snd p)) (cirrusServers twoAndTwo))
   \<and> queueOrder (processQueue 3 twoAndTwo) = []"
proof -
  have h: "length (queueOrder twoAndTwo)
       \<le> length (filter (\<lambda>p. isServerAvailable 3 (snd p)) (cirrusServers twoAndTwo))"
    by (simp add: twoAndTwo_fields isServerAvailable_def)
  from processNextInQueue_one_assignment[OF reachable_twoAndTwo, of 3] h reachable_twoAndTwo
  show ?thesis by blast
qed

subsection \<open>C2: the cooldown after an assignment\<close>




subsection \<open>C3: registering at an address that is taken\<close>

text \<open>
  C3, as stated, fails: \<open>registerServer\<close> for the address and port of the registered
  node \<open>n1\<close> removes \<open>n1\<close> with \<open>cirrusServers.delete\<close> and emits no
  \<open>serverUnregistered\<close>: the events are the two \<open>serverRegistered\<close>.
\<close>

theorem registerServer_no_unregistered_counterexample:
  "emitted (snd (registerServer (connectMsg ''10.0.0.1'' 8080 True True) ''n2'' 7 (oneNode 0)))
   = [ServerRegistered \<lparr>server_id = ''n1'', address = Some ''10.0.0.1'', port = Some 8080,
         https = False, numConnectedClients = 0, lastPingReceived = 0,
         ready = True, lastRedirect = None, server_metadata = []\<rparr>,
      ServerRegistered \<lparr>server_id = ''n2'', address = Some ''10.0.0.1'', port = Some 8080,
         https = False, numConnectedClients = 1, lastPingReceived = 7,
         ready = True, lastRedirect = None, server_metadata = []\<rparr>]
   \<and> map fst (cirrusServers
        (snd (registerServer (connectMsg ''10.0.0.1'' 8080 True True) ''n2'' 7 (oneNode 0)))) = [''n2'']"
  by (simp add: oneNode_def registerServer_def connectMsg_def emptyEngine_def
      findServerByAddress_def Let_def)

text \<open>
  C3, amended. In every reachable state with a server registered under \<open>k\<close> at the
  address and port of the message, \<open>registerServer\<close> with an unused identifier removes
  that entry from the registry, appends the new server (\<open>numConnectedClients\<close> 1 if
  \<open>playerConnected\<close>, else 0; \<open>lastPingReceived = now\<close>; \<open>ready\<close> as in the message;
  no \<open>lastRedirect\<close>; the new identifier, which is returned), and emits \<open>serverRegistered\<close> for the new server and nothing else;
  afterwards no two servers of the registry share \<open>(address, port)\<close>.
\<close>

theorem registerServer_replaces:
  assumes "reachable s" and "map_get k (cirrusServers s) = Some existing"
    and "address existing = msg_address message" and "port existing = msg_port message"
    and "serverId' \<notin> fst ` set (cirrusServers s)"
  shows "\<exists>server.
      fst (registerServer message serverId' t s) = serverId'
    \<and> cirrusServers (snd (registerServer message serverId' t s))
        = map_delete k (cirrusServers s) @ [(serverId', server)]
    \<and> emitted (snd (registerServer message serverId' t s)) = emitted s @ [ServerRegistered server]
    \<and> map_get k (cirrusServers (snd (registerServer message serverId' t s))) = None
    \<and> server_id server = serverId'
    \<and> address server = msg_address message \<and> port server = msg_port message
    \<and> numConnectedClients server = (if msg_playerConnected message = Some True then 1 else 0)
    \<and> lastPingReceived server = t
    \<and> ready server = (msg_ready message = Some True) \<and> lastRedirect server = None
    \<and> distinct (map endpoint (cirrusServers (snd (registerServer message serverId' t s))))"
proof -
  from assms(1) have ok: "servers_ok (cirrusServers s)"
    by (auto dest: reachable_engine_ok simp: engine_ok_def)
  from assms(2) have mem: "(k, existing) \<in> set (cirrusServers s)" by (rule map_get_Some_mem)
  with ok have idk: "server_id existing = k" by (auto simp: servers_ok_def)
  from mem assms(5) have ne: "k \<noteq> serverId'" by (auto simp: rev_image_eqI)
  have f: "findServerByAddress (msg_address message) (msg_port message) (cirrusServers s)
           = Some existing"
    using findServerByAddress_unique[OF ok assms(2)] assms(3,4) by simp
  have fr: "serverId' \<notin> fst ` set (map_delete k (cirrusServers s))"
    using assms(5) by (auto simp: map_delete_filter)
  have ok': "servers_ok (cirrusServers (snd (registerServer message serverId' t s)))"
    using ok assms(5) by (rule servers_ok_register)
  show ?thesis
    using f fr ne idk ok'
    by (simp add: registerServer_def Let_def map_set_fresh map_get_delete servers_ok_def
        map_get_append)
qed

text \<open>
  The amended theorem at the node \<open>n1\<close> and a second registration, as \<open>n2\<close>, of
  \<open>10.0.0.1:8080\<close>.
\<close>

theorem registerServer_replaces_witness:
  "reachable (oneNode 0)
   \<and> map_option address (map_get ''n1'' (cirrusServers (oneNode 0))) = Some (Some ''10.0.0.1'')
   \<and> map_option port (map_get ''n1'' (cirrusServers (oneNode 0))) = Some (Some 8080)
   \<and> ''n2'' \<notin> fst ` set (cirrusServers (oneNode 0))
   \<and> map_get ''n1'' (cirrusServers
        (snd (registerServer (connectMsg ''10.0.0.1'' 8080 True True) ''n2'' 7 (oneNode 0)))) = None
   \<and> length (emitted (snd (registerServer (connectMsg ''10.0.0.1'' 8080 True True) ''n2'' 7 (oneNode 0))))
       = Suc (length (emitted (oneNode 0)))"
proof -
  let ?n1 = "\<lparr>server_id = ''n1'', address = Some ''10.0.0.1'', port = Some 8080,
         https = False, numConnectedClients = 0, lastPingReceived = 0,
         ready = True, lastRedirect = None, server_metadata = []\<rparr>"
  let ?msg = "connectMsg ''10.0.0.1'' 8080 True True"
  have g: "map_get ''n1'' (cirrusServers (oneNode 0)) = Some ?n1"
    by (simp add: oneNode_servers)
  have a: "address ?n1 = msg_address ?msg" and p: "port ?n1 = msg_port ?msg"
    by (simp_all add: connectMsg_def)
  have fr: "''n2'' \<notin> fst ` set (cirrusServers (oneNode 0))"
    by (simp add: oneNode_servers)
  from registerServer_replaces[OF reachable_oneNode g a p fr, of 7]
  show ?thesis using reachable_oneNode g fr by auto
qed

subsection \<open>C4: getAvailableServer returns eligible servers only\<close>

text \<open>
  C4. In every reachable state, a server that \<open>getAvailableServer\<close> returns at time
  \<open>t\<close> is ready and has no connected client, and it is the registered server of that id
  with \<open>lastRedirect\<close> set to \<open>t\<close>; before the call its cooldown had elapsed:
  \<open>lastRedirect\<close> was unset or 0 (no cooldown), or \<open>lastRedirect + 10000 \<le> t\<close> (the end
  of the cooldown, 10 s after the assignment, is not after now). Hence a server that is
  not ready or has a connected client is never returned.
\<close>

theorem getAvailableServer_eligible:
  assumes "reachable s" and "getAvailableServer t s = (Some N, s')"
  shows "ready N \<and> numConnectedClients N = 0
       \<and> (\<exists>N0. (server_id N, N0) \<in> set (cirrusServers s) \<and> N = N0\<lparr>lastRedirect := Some t\<rparr>
              \<and> (case lastRedirect N0 of None \<Rightarrow> True | Some r \<Rightarrow> r = 0 \<or> r + 10000 \<le> t))"
proof -
  from assms(1) have ok: "servers_ok (cirrusServers s)"
    by (auto dest: reachable_engine_ok simp: engine_ok_def)
  from assms(2) have "firstAvailable t (cirrusServers s) = (Some N, cirrusServers s')"
    by (auto simp: getAvailableServer_def split: prod.splits)
  from firstAvailable_Some[OF this] obtain pre k N0 post where
    m: "cirrusServers s = pre @ (k, N0) # post" and av: "isServerAvailable t N0"
    and N: "N = N0\<lparr>lastRedirect := Some t\<rparr>" by blast
  from m have mem: "(k, N0) \<in> set (cirrusServers s)" by simp
  with ok have k: "server_id N0 = k" and n: "0 \<le> numConnectedClients N0"
    by (auto simp: servers_ok_def)
  from av have r: "ready N0" and c: "\<not> numConnectedClients N0 > 0"
    and cd: "case lastRedirect N0 of None \<Rightarrow> True | Some r \<Rightarrow> r = 0 \<or> r + 10000 \<le> t"
    by (auto simp: isServerAvailable_def split: if_splits option.splits)
  from c n have "numConnectedClients N0 = 0" by simp
  with r cd mem k N show ?thesis by auto
qed

text \<open>The theorem at the node \<open>n1\<close>, acquired at time 5.\<close>

theorem getAvailableServer_eligible_witness:
  "reachable (oneNode 0)
   \<and> fst (getAvailableServer 5 (oneNode 0)) =
       Some \<lparr>server_id = ''n1'', address = Some ''10.0.0.1'', port = Some 8080,
         https = False, numConnectedClients = 0, lastPingReceived = 0,
         ready = True, lastRedirect = Some 5, server_metadata = []\<rparr>
   \<and> ready \<lparr>server_id = ''n1'', address = Some ''10.0.0.1'', port = Some 8080,
         https = False, numConnectedClients = 0, lastPingReceived = 0,
         ready = True, lastRedirect = Some 5, server_metadata = []\<rparr>"
proof -
  let ?N = "\<lparr>server_id = ''n1'', address = Some ''10.0.0.1'', port = Some 8080,
         https = False, numConnectedClients = 0, lastPingReceived = 0,
         ready = True, lastRedirect = Some 5, server_metadata = []\<rparr>"
  have g: "getAvailableServer 5 (oneNode 0) = (Some ?N, snd (getAvailableServer 5 (oneNode 0)))"
    by (simp add: getAvailableServer_def oneNode_servers isServerAvailable_def)
  from getAvailableServer_eligible[OF reachable_oneNode g] have "ready ?N" by blast
  then show ?thesis using reachable_oneNode g by (metis fst_conv)
qed

subsection \<open>C5: the sweep of stale servers at its boundary\<close>

text \<open>
  C5, as stated, fails: a sweep that runs when \<open>now - lastPingReceived\<close> is exactly
  120000 ms keeps the server, since \<open>isExpired\<close> compares with \<open>>\<close>. The node \<open>n1\<close>,
  pinged at time 0, is still registered after the sweep at time 120000.
\<close>

theorem cleanupStaleServers_at_120000_counterexample:
  "map (lastPingReceived \<circ> snd) (cirrusServers (oneNode 0)) = [0]
   \<and> map fst (cirrusServers (cleanupStaleServers 120000 (oneNode 0))) = [''n1'']"
  by (simp add: oneNode_servers cleanupStaleServers_def isExpired_def)

text \<open>
  C5, amended. In every reachable state, the sweep at time \<open>t\<close> removes a registered
  server and emits \<open>serverUnregistered\<close> for it exactly when
  \<open>t - lastPingReceived > 120000\<close>, and keeps it unchanged otherwise: it is kept at 119000
  and at exactly 120000, and removed from 120001 on.
\<close>

theorem cleanupStaleServers_boundary:
  assumes "reachable s" and "map_get serverId' (cirrusServers s) = Some server"
  shows "if t - lastPingReceived server > 120000
         then map_get serverId' (cirrusServers (cleanupStaleServers t s)) = None
              \<and> ServerUnregistered server \<in> set (emitted (cleanupStaleServers t s))
         else map_get serverId' (cirrusServers (cleanupStaleServers t s)) = Some server"
proof -
  from assms(1) have "servers_ok (cirrusServers s)"
    by (auto dest: reachable_engine_ok simp: engine_ok_def)
  then have d: "distinct (map fst (cirrusServers s))" by (simp add: servers_ok_def)
  from assms(2) have mem: "(serverId', server) \<in> set (cirrusServers s)" by (rule map_get_Some_mem)
  have only: "srv = server" if "(serverId', srv) \<in> set (cirrusServers s)" for srv
    using map_get_distinct[OF d that] assms(2) by simp
  show ?thesis
  proof (cases "t - lastPingReceived server > 120000")
    case True
    then have e: "isExpired t (lastPingReceived server) 120000" by (simp add: isExpired_def)
    have "map_get serverId' (cirrusServers (cleanupStaleServers t s)) = None"
      unfolding cleanupStaleServers_def staleSweep_get using mem e by auto
    moreover have "ServerUnregistered server \<in> set (emitted (cleanupStaleServers t s))"
      unfolding cleanupStaleServers_def by (rule staleSweep_event[OF d mem e assms(2)])
    ultimately show ?thesis using True by simp
  next
    case False
    then have "\<not> (\<exists>srv. (serverId', srv) \<in> set (cirrusServers s)
                   \<and> isExpired t (lastPingReceived srv) 120000)"
      using only by (auto simp: isExpired_def)
    then have "map_get serverId' (cirrusServers (cleanupStaleServers t s)) = Some server"
      unfolding cleanupStaleServers_def staleSweep_get using assms(2) by simp
    then show ?thesis using False by simp
  qed
qed

text \<open>
  The amended theorem at the node \<open>n1\<close>, pinged at time 0: removed by the sweep at
  120001, kept by the sweep at 119000.
\<close>

theorem cleanupStaleServers_boundary_witness:
  "reachable (oneNode 0)
   \<and> map_option lastPingReceived (map_get ''n1'' (cirrusServers (oneNode 0))) = Some 0
   \<and> map_get ''n1'' (cirrusServers (cleanupStaleServers 120001 (oneNode 0))) = None
   \<and> map_get ''n1'' (cirrusServers (cleanupStaleServers 119000 (oneNode 0)))
       = map_get ''n1'' (cirrusServers (oneNode 0))"
proof -
  let ?n1 = "\<lparr>server_id = ''n1'', address = Some ''10.0.0.1'', port = Some 8080,
         https = False, numConnectedClients = 0, lastPingReceived = 0,
         ready = True, lastRedirect = None, server_metadata = []\<rparr>"
  have g: "map_get ''n1'' (cirrusServers (oneNode 0)) = Some ?n1"
    by (simp add: oneNode_servers)
  from cleanupStaleServers_boundary[OF reachable_oneNode g, of 120001]
       cleanupStaleServers_boundary[OF reachable_oneNode g, of 119000]
  show ?thesis using reachable_oneNode g by simp
qed

subsection \<open>C6: the order of the queue\<close>

text \<open>
  C6, amended. Let the session \<open>S1\<close> be queued in a reachable state when \<open>S2\<close> is
  enqueued with a priority not above that of \<open>S1\<close>, and let any calls follow
  (\<open>generateId()\<close> returning unused identifiers, neither that of \<open>S1\<close> nor that of \<open>S2\<close>
  again). Then \<open>queueOrder\<close> is sorted by priority, highest first, and as long as
  \<open>S1\<close> is queued, \<open>S2\<close> is either no session any more (removed by \<open>removeSession\<close> or
  by the sweep) or still of status \<open>queued\<close> at a later position than \<open>S1\<close>: the
  queue is first in, first out among equal priorities, and \<open>processNextInQueue\<close> never
  assigns \<open>S2\<close> while \<open>S1\<close> waits.
\<close>

theorem queue_priority_order:
  assumes "reachable s0"
    and "sessionId1 \<in> set (queueOrder s0)"
    and "map_get sessionId1 (clientSessions s0) = Some session1"
    and "priority2 \<le> priority session1"
    and "sessionId2 \<notin> fst ` set (clientSessions s0)"
    and "fresh_run (snd (addToQueue clientId2 priority2 sessionId2 t s0)) cs"
    and "list_all (\<lambda>c. \<not> enqueues sessionId1 c \<and> \<not> enqueues sessionId2 c) cs"
  shows "sorted_wrt (prio_ge (clientSessions (run cs (snd (addToQueue clientId2 priority2 sessionId2 t s0)))))
            (queueOrder (run cs (snd (addToQueue clientId2 priority2 sessionId2 t s0))))
       \<and> (sessionId1 \<in> set (queueOrder (run cs (snd (addToQueue clientId2 priority2 sessionId2 t s0))))
          \<longrightarrow>
            (case map_get sessionId2
                    (clientSessions (run cs (snd (addToQueue clientId2 priority2 sessionId2 t s0)))) of
               None \<Rightarrow> True
             | Some session2 \<Rightarrow>
                 status session2 = Queued
                 \<and> indexOf sessionId1 (queueOrder (run cs (snd (addToQueue clientId2 priority2 sessionId2 t s0))))
                   < indexOf sessionId2 (queueOrder (run cs (snd (addToQueue clientId2 priority2 sessionId2 t s0))))))"
proof -
  let ?s1 = "snd (addToQueue clientId2 priority2 sessionId2 t s0)"
  let ?s = "run cs ?s1"
  from assms(1) have ok0: "engine_ok s0" by (rule reachable_engine_ok)
  then have q0: "queue_ok (clientSessions s0) (queueOrder s0)" by (simp add: engine_ok_def)
  from assms(3) have "sessionId1 \<in> fst ` set (clientSessions s0)"
    by (auto dest: map_get_Some_mem intro: rev_image_eqI)
  with assms(5) have ne: "sessionId1 \<noteq> sessionId2" by auto
  have s1: "?s1 = exec (AddToQueue clientId2 priority2 sessionId2 t) s0" by simp
  have ok1: "engine_ok ?s1" unfolding s1 using ok0 assms(5) by (intro engine_ok_exec) simp_all
  have J1: "ahead sessionId1 sessionId2 ?s1"
    using q0 assms(2,3,4,5) by (rule ahead_after_enqueue)
  have ok: "engine_ok ?s" using ok1 assms(6) by (rule engine_ok_run)
  have J: "ahead sessionId1 sessionId2 ?s" using ok1 assms(6) J1 ne assms(7) by (rule ahead_run)
  from ok have qok: "queue_ok (clientSessions ?s) (queueOrder ?s)" by (simp add: engine_ok_def)
  then have srt: "sorted_wrt (prio_ge (clientSessions ?s)) (queueOrder ?s)"
    and d: "distinct (queueOrder ?s)" and allq: "list_all (isQueued (clientSessions ?s)) (queueOrder ?s)"
    by (simp_all add: queue_ok_def)
  have "status session2 = Queued \<and> indexOf sessionId1 (queueOrder ?s) < indexOf sessionId2 (queueOrder ?s)"
    if a: "sessionId1 \<in> set (queueOrder ?s)" and g: "map_get sessionId2 (clientSessions ?s) = Some session2"
    for session2
  proof -
    from J a g have b: "sessionId2 \<in> set (queueOrder ?s)" and p: "precedes sessionId1 sessionId2 (queueOrder ?s)"
      by (auto simp: ahead_def split: if_splits)
    from allq b g have "status session2 = Queued" by (auto simp: list_all_iff isQueued_def)
    moreover from d p have "indexOf sessionId1 (queueOrder ?s) < indexOf sessionId2 (queueOrder ?s)"
      by (rule precedes_indexOf)
    ultimately show ?thesis by simp
  qed
  with srt show ?thesis by (auto split: option.splits)
qed

text \<open>
  The amended theorem at the queued session \<open>s1\<close>, a second session \<open>s2\<close> of the
  same priority and a third one of priority 5, which goes to the front.
\<close>

theorem queue_priority_order_witness:
  "reachable oneQueued
   \<and> ''s1'' \<in> set (queueOrder oneQueued)
   \<and> map_option priority (map_get ''s1'' (clientSessions oneQueued)) = Some 0
   \<and> ''s2'' \<notin> fst ` set (clientSessions oneQueued)
   \<and> fresh_run (snd (addToQueue (Some ''c2'') 0 ''s2'' 1 oneQueued)) [AddToQueue (Some ''c3'') 5 ''s3'' 2]
   \<and> queueOrder (run [AddToQueue (Some ''c3'') 5 ''s3'' 2] (snd (addToQueue (Some ''c2'') 0 ''s2'' 1 oneQueued)))
       = [''s3'', ''s1'', ''s2'']
   \<and> indexOf ''s1'' (queueOrder (run [AddToQueue (Some ''c3'') 5 ''s3'' 2]
           (snd (addToQueue (Some ''c2'') 0 ''s2'' 1 oneQueued))))
       < indexOf ''s2'' (queueOrder (run [AddToQueue (Some ''c3'') 5 ''s3'' 2]
           (snd (addToQueue (Some ''c2'') 0 ''s2'' 1 oneQueued))))"
proof -
  let ?s1 = "snd (addToQueue (Some ''c2'') 0 ''s2'' 1 oneQueued)"
  let ?cs = "[AddToQueue (Some ''c3'') 5 ''s3'' 2]"
  have q1: "''s1'' \<in> set (queueOrder oneQueued)" by (simp add: oneQueued_fields)
  have g1: "map_get ''s1'' (clientSessions oneQueued) = Some (newSession (Some ''c1'') 0 ''s1'' 0)"
    by (simp add: oneQueued_fields)
  have p: "(0::int) \<le> priority (newSession (Some ''c1'') 0 ''s1'' 0)" by (simp add: newSession_def)
  have fr: "''s2'' \<notin> fst ` set (clientSessions oneQueued)" by (simp add: oneQueued_fields)
  have m1: "clientSessions ?s1 = [(''s1'', newSession (Some ''c1'') 0 ''s1'' 0),
                                  (''s2'', newSession (Some ''c2'') 0 ''s2'' 1)]"
    by (simp add: addToQueue_fields oneQueued_fields)
  have f: "fresh_run ?s1 ?cs" by (simp add: m1)
  have e: "list_all (\<lambda>c. \<not> enqueues ''s1'' c \<and> \<not> enqueues ''s2'' c) ?cs" by simp
  have q: "queueOrder (run ?cs ?s1) = [''s3'', ''s1'', ''s2'']"
    by (simp add: addToQueue_def Let_def oneQueued_fields newSession_def splice_insert_def)
  have g2: "map_get ''s2'' (clientSessions (run ?cs ?s1)) = Some (newSession (Some ''c2'') 0 ''s2'' 1)"
    by (simp add: addToQueue_fields m1 map_get_set)
  from queue_priority_order[OF reachable_oneQueued q1 g1 p fr f e]
  have "indexOf ''s1'' (queueOrder (run ?cs ?s1)) < indexOf ''s2'' (queueOrder (run ?cs ?s1))"
    unfolding g2 q by simp
  then show ?thesis using reachable_oneQueued q1 g1 fr f q by (simp add: newSession_def)
qed

text \<open>
  C6, as stated for executions with remove operations, fails: \<open>s1\<close> is enqueued
  before \<open>s2\<close> with the same priority, and \<open>removeSession\<close> takes \<open>s2\<close> out of the
  queue while \<open>s1\<close> is still in it.
\<close>

theorem queue_removed_first_counterexample:
  "queueOrder (run [AddToQueue (Some ''c1'') 0 ''s1'' 1, AddToQueue (Some ''c2'') 0 ''s2'' 2]
                 emptyEngine) = [''s1'', ''s2'']
   \<and> queueOrder (run [AddToQueue (Some ''c1'') 0 ''s1'' 1, AddToQueue (Some ''c2'') 0 ''s2'' 2,
                        RemoveSession ''s2''] emptyEngine) = [''s1'']"
  by (simp add: addToQueue_def removeSession_def emptyEngine_def Let_def indexOf_def
      splice_remove_def)

subsection \<open>C7: the client count is never negative\<close>

text \<open>
  C7. In every reachable state, so after every sequence of \<open>updateServerStatus\<close>
  messages, \<open>numConnectedClients\<close> of every server is at least 0; a
  \<open>clientDisconnected\<close> message for a server whose count is 0 leaves it at 0.
\<close>

theorem numConnectedClients_nonneg:
  assumes "reachable s"
  shows "(\<forall>p \<in> set (cirrusServers s). 0 \<le> numConnectedClients (snd p))
       \<and> (\<forall>serverId' server. map_get serverId' (cirrusServers s) = Some server
             \<and> numConnectedClients server = 0 \<and> msg_type message = ClientDisconnected
           \<longrightarrow> map_option numConnectedClients
                 (map_get serverId' (cirrusServers (updateServerStatus serverId' message t s))) = Some 0)"
proof -
  from assms have "servers_ok (cirrusServers s)"
    by (auto dest: reachable_engine_ok simp: engine_ok_def)
  then have "\<forall>p \<in> set (cirrusServers s). 0 \<le> numConnectedClients (snd p)"
    by (simp add: servers_ok_def)
  moreover have "map_option numConnectedClients
       (map_get k (cirrusServers (updateServerStatus k message t s))) = Some 0"
    if "map_get k (cirrusServers s) = Some srv" "numConnectedClients srv = 0"
      "msg_type message = ClientDisconnected" for k srv
    using that by (simp add: updateServerStatus_def Let_def map_get_set)
  ultimately show ?thesis by blast
qed

text \<open>The theorem at the node \<open>n1\<close>, which has no client.\<close>

theorem numConnectedClients_nonneg_witness:
  "reachable (oneNode 0)
   \<and> map_option numConnectedClients (map_get ''n1'' (cirrusServers (oneNode 0))) = Some 0
   \<and> msg_type (statusMsg ClientDisconnected) = ClientDisconnected
   \<and> map_option numConnectedClients (map_get ''n1'' (cirrusServers
         (updateServerStatus ''n1'' (statusMsg ClientDisconnected) 5 (oneNode 0)))) = Some 0"
proof -
  have g: "map_get ''n1'' (cirrusServers (oneNode 0)) =
     Some \<lparr>server_id = ''n1'', address = Some ''10.0.0.1'', port = Some 8080,
         https = False, numConnectedClients = 0, lastPingReceived = 0,
         ready = True, lastRedirect = None, server_metadata = []\<rparr>"
    by (simp add: oneNode_servers)
  have ty: "msg_type (statusMsg ClientDisconnected) = ClientDisconnected"
    by (simp add: statusMsg_def)
  from numConnectedClients_nonneg[OF reachable_oneNode, of 0 "statusMsg ClientDisconnected" 5] g ty
  have "map_option numConnectedClients (map_get ''n1'' (cirrusServers
         (updateServerStatus ''n1'' (statusMsg ClientDisconnected) 5 (oneNode 0)))) = Some 0"
    by auto
  then show ?thesis using reachable_oneNode g ty by simp
qed

subsection \<open>C8: enqueue, then removeSession\<close>

text \<open>
  C8. From every state and for every client id and priority, \<open>addToQueue\<close> followed by
  \<open>removeSession\<close> of the returned session's id leaves the length of the queue as it was
  before, and the queue itself as it was when the generated id was not already queued;
  \<open>removeSession\<close> is idempotent.
\<close>

theorem enqueue_removeSession_roundtrip:
  "length (queueOrder (removeSession (session_id (fst (addToQueue clientId' priority' sessionId t s)))
                       (snd (addToQueue clientId' priority' sessionId t s))))
     = length (queueOrder s)
   \<and> (sessionId \<notin> set (queueOrder s) \<longrightarrow>
        queueOrder (removeSession (session_id (fst (addToQueue clientId' priority' sessionId t s)))
                       (snd (addToQueue clientId' priority' sessionId t s)))
          = queueOrder s)
   \<and> removeSession sessionId (removeSession sessionId s) = removeSession sessionId s"
proof -
  let ?a = "addToQueue clientId' priority' sessionId t s"
  let ?new = "newSession clientId' priority' sessionId t"
  let ?P = "\<lambda>y. \<not> lowerThan (map_set sessionId ?new (clientSessions s)) priority' y"
  let ?q = "queueOrder s"
  have id: "session_id (fst ?a) = sessionId"
    by (simp add: addToQueue_fields newSession_def)
  have get: "map_get sessionId (clientSessions (snd ?a)) = Some ?new"
    by (simp add: addToQueue_fields map_get_set)
  have q: "queueOrder (removeSession sessionId (snd ?a))
      = remove1 sessionId (takeWhile ?P ?q @ sessionId # dropWhile ?P ?q)"
    by (simp add: removeSession_present[OF get] addToQueue_queue)
  have len: "length (queueOrder (removeSession sessionId (snd ?a))) = length ?q"
  proof -
    have "length (takeWhile ?P ?q @ sessionId # dropWhile ?P ?q) = Suc (length ?q)"
      using takeWhile_dropWhile_id[of ?P ?q]
      by (metis length_Cons length_append add_Suc_right)
    then show ?thesis unfolding q by (simp add: length_remove1)
  qed
  have cont: "queueOrder (removeSession sessionId (snd ?a)) = ?q" if "sessionId \<notin> set ?q"
  proof -
    from that have "sessionId \<notin> set (takeWhile ?P ?q)" by (auto dest: set_takeWhileD)
    then show ?thesis unfolding q by (simp add: remove1_append)
  qed
  have idem: "removeSession sessionId (removeSession sessionId s) = removeSession sessionId s"
  proof (cases "map_get sessionId (clientSessions s)")
    case None
    then show ?thesis by (simp add: removeSession_absent)
  next
    case (Some x)
    have "map_get sessionId (clientSessions (removeSession sessionId s)) = None"
      by (simp add: removeSession_present[OF Some] map_get_delete)
    then show ?thesis by (rule removeSession_absent)
  qed
  show ?thesis using len cont idem unfolding id by blast
qed

text \<open>The theorem at a queue that holds \<open>s1\<close>, for a new session \<open>s2\<close> of priority 10.\<close>

theorem enqueue_removeSession_roundtrip_witness:
  "''s2'' \<notin> set (queueOrder oneQueued)
   \<and> queueOrder (removeSession
         (session_id (fst (addToQueue (Some ''c2'') 10 ''s2'' 1 oneQueued)))
         (snd (addToQueue (Some ''c2'') 10 ''s2'' 1 oneQueued)))
       = [''s1'']"
proof -
  have q: "queueOrder oneQueued = [''s1'']"
    by (simp add: oneQueued_def addToQueue_def emptyEngine_def Let_def)
  have h: "''s2'' \<notin> set (queueOrder oneQueued)"
    by (simp add: q)
  from enqueue_removeSession_roundtrip[of "Some ''c2''" 10 "''s2''" 1 oneQueued] h
  show ?thesis by (simp add: q)
qed

subsection \<open>C9: the queue refers to queued sessions, once each\<close>

text \<open>
  C9. In every state reachable from the empty engine (by \<open>addToQueue\<close>,
  \<open>processNextInQueue\<close>, \<open>removeSession\<close>, the two sweeps and the operations on servers,
  with \<open>generateId()\<close> returning unused identifiers), every identifier in \<open>queueOrder\<close>
  occurs there exactly once and is the key of a session of status \<open>queued\<close>. So the branch
  of \<open>processNextInQueue\<close> for a session that is missing after the pop is never taken:
  with a queue that is not empty and a server acquired, the call returns \<open>true\<close>.
\<close>

theorem queue_entries_queued:
  assumes "reachable s"
  shows "(\<forall>sessionId \<in> set (queueOrder s).
            count_list (queueOrder s) sessionId = 1
            \<and> (\<exists>session. map_get sessionId (clientSessions s) = Some session
                  \<and> status session = Queued))
         \<and> (queueOrder s \<noteq> [] \<and> fst (getAvailableServer t s) \<noteq> None
              \<longrightarrow> fst (processNextInQueue t s))"
proof -
  from assms have ok: "queue_ok (clientSessions s) (queueOrder s)"
    by (auto dest: reachable_engine_ok simp: engine_ok_def)
  then have d: "distinct (queueOrder s)" and q: "list_all (isQueued (clientSessions s)) (queueOrder s)"
    by (simp_all add: queue_ok_def)
  have 1: "\<forall>sessionId \<in> set (queueOrder s).
            count_list (queueOrder s) sessionId = 1
            \<and> (\<exists>session. map_get sessionId (clientSessions s) = Some session
                  \<and> status session = Queued)"
    using d q by (auto simp: count_list_distinct list_all_iff isQueued_def split: option.splits)
  have 2: "fst (processNextInQueue t s)"
    if ne: "queueOrder s \<noteq> []" and av: "fst (getAvailableServer t s) \<noteq> None"
  proof -
    from ne obtain sid q' where c: "queueOrder s = sid # q'" by (cases "queueOrder s") auto
    from av obtain srv m' where fa: "firstAvailable t (cirrusServers s) = (Some srv, m')"
      by (cases "firstAvailable t (cirrusServers s)") auto
    from q c obtain sess where g: "map_get sid (clientSessions s) = Some sess"
      by (auto simp: isQueued_def split: option.splits)
    show ?thesis by (simp add: processNextInQueue_assigned[OF c fa g])
  qed
  from 1 2 show ?thesis by blast
qed

text \<open>The theorem at the state with the one queued session \<open>s1\<close>.\<close>

theorem queue_entries_queued_witness:
  "reachable oneQueued \<and> ''s1'' \<in> set (queueOrder oneQueued)
   \<and> count_list (queueOrder oneQueued) ''s1'' = 1
   \<and> (\<exists>session. map_get ''s1'' (clientSessions oneQueued) = Some session \<and> status session = Queued)"
proof -
  have m: "''s1'' \<in> set (queueOrder oneQueued)" by (simp add: oneQueued_fields)
  from queue_entries_queued[OF reachable_oneQueued, of 0] m reachable_oneQueued
  show ?thesis by blast
qed

subsection \<open>C10: what updateServerStatus changes\<close>

text \<open>
  C10. For a registered server and any message, \<open>updateServerStatus\<close> changes only the
  fields that the type of the message designates: \<open>ready\<close> for \<open>streamerConnected\<close> and
  \<open>streamerDisconnected\<close>, \<open>numConnectedClients\<close> and \<open>lastRedirect\<close> for
  \<open>clientConnected\<close> and \<open>clientDisconnected\<close>, \<open>lastPingReceived\<close> for \<open>ping\<close>. The
  fields \<open>id\<close>, \<open>address\<close>, \<open>port\<close>, \<open>https\<close> and \<open>metadata\<close> never change, a
  message of another type (\<open>connect\<close>, \<open>disconnect\<close>, \<open>healthCheck\<close>) leaves the record as
  it is, and \<open>serverUpdated\<close> is emitted with the record in every case.
\<close>

theorem updateServerStatus_frame:
  assumes "map_get serverId' (cirrusServers s) = Some server"
  shows "\<exists>server'.
      map_get serverId' (cirrusServers (updateServerStatus serverId' message t s)) = Some server'
    \<and> emitted (updateServerStatus serverId' message t s) = emitted s @ [ServerUpdated server']
    \<and> server_id server' = server_id server \<and> address server' = address server
    \<and> port server' = port server \<and> https server' = https server
    \<and> server_metadata server' = server_metadata server
    \<and> (case msg_type message of
          StreamerConnected \<Rightarrow> server'\<lparr>ready := ready server\<rparr> = server
        | StreamerDisconnected \<Rightarrow> server'\<lparr>ready := ready server\<rparr> = server
        | ClientConnected \<Rightarrow>
            server'\<lparr>numConnectedClients := numConnectedClients server,
                    lastRedirect := lastRedirect server\<rparr> = server
        | ClientDisconnected \<Rightarrow>
            server'\<lparr>numConnectedClients := numConnectedClients server,
                    lastRedirect := lastRedirect server\<rparr> = server
        | Ping \<Rightarrow> server'\<lparr>lastPingReceived := lastPingReceived server\<rparr> = server
        | Connect \<Rightarrow> server' = server
        | Disconnect \<Rightarrow> server' = server
        | HealthCheck \<Rightarrow> server' = server)"
  using assms
  by (cases "msg_type message")
     (simp_all add: updateServerStatus_def Let_def map_get_set)

text \<open>The theorem at the node \<open>n1\<close> and a \<open>healthCheck\<close> message.\<close>

theorem updateServerStatus_frame_witness:
  "map_get ''n1'' (cirrusServers (oneNode 0)) =
     Some \<lparr>server_id = ''n1'', address = Some ''10.0.0.1'', port = Some 8080,
         https = False, numConnectedClients = 0, lastPingReceived = 0,
         ready = True, lastRedirect = None, server_metadata = []\<rparr>
   \<and> map_get ''n1'' (cirrusServers (updateServerStatus ''n1'' (statusMsg HealthCheck) 5 (oneNode 0)))
       = map_get ''n1'' (cirrusServers (oneNode 0))
   \<and> emitted (updateServerStatus ''n1'' (statusMsg HealthCheck) 5 (oneNode 0))
       = emitted (oneNode 0) @ [ServerUpdated
           \<lparr>server_id = ''n1'', address = Some ''10.0.0.1'', port = Some 8080,
            https = False, numConnectedClients = 0, lastPingReceived = 0,
            ready = True, lastRedirect = None, server_metadata = []\<rparr>]"
proof -
  let ?srv = "\<lparr>server_id = ''n1'', address = Some ''10.0.0.1'', port = Some 8080,
         https = False, numConnectedClients = 0, lastPingReceived = 0,
         ready = True, lastRedirect = None, server_metadata = []\<rparr>"
  have h: "map_get ''n1'' (cirrusServers (oneNode 0)) = Some ?srv"
    by (simp add: oneNode_def connectMsg_def emptyEngine_def registerServer_def
        findServerByAddress_def Let_def)
  from updateServerStatus_frame[OF h, of "statusMsg HealthCheck" 5]
  show ?thesis using h by (auto simp: statusMsg_def)
qed

end
